theory Spec2Isabelle
  imports Complex_Main
begin

section \<open>Data model\<close>

text \<open>
  The component \<open>VideoScrollSequence\<close> preloads a sequence of images and paints the one
  selected by the scroll progress onto a canvas. An \<open>HTMLImageElement\<close> is read through
  its \<open>width\<close>, \<open>height\<close> and \<open>src\<close>; an \<open>HTMLCanvasElement\<close> through its \<open>width\<close> and
  \<open>height\<close>. What the code does to the canvas and its 2d context is kept as the list of
  the calls it makes, in order.
\<close>

record dims =
  width :: nat
  height :: nat

record image = dims +
  src :: string

datatype canvas_call =
    SetWidth nat
  | SetHeight nat
  | ClearRect nat nat nat nat
  | DrawImage image nat nat nat nat

record canvas = dims +
  calls :: "canvas_call list"

text \<open>The props of the component (\<open>VideoScrollSequenceProps\<close>) and the default frame count.\<close>

record props =
  firstFrameSrc :: string
  totalFrames :: int
  getFramePath :: "int \<Rightarrow> string"
  scrollSensitivity :: real
  pinHeight :: string

definition DEFAULT_FRAME_COUNT :: int where
  "DEFAULT_FRAME_COUNT = 48"

text \<open>
  \<open>String(index)\<close> on an integer: its decimal digits. \<open>DEFAULT_FRAME_PATH_FORMAT\<close> and the
  props that \<open>App\<close> passes, the others defaulted.
\<close>

fun string_of_nat :: "nat \<Rightarrow> string" where
  "string_of_nat n =
     (if n < 10 then [''0123456789'' ! n]
      else string_of_nat (n div 10) @ [''0123456789'' ! (n mod 10)])"

declare string_of_nat.simps [simp del]

definition String :: "int \<Rightarrow> string" where
  "String i = (if i < 0 then ''-'' @ string_of_nat (nat (- i)) else string_of_nat (nat i))"

definition DEFAULT_FRAME_PATH_FORMAT :: "int \<Rightarrow> string" where
  "DEFAULT_FRAME_PATH_FORMAT index =
     ''https://static-res-www.imoo.com/US/images/products/x10/pc/animate1-1/animate1-''
     @ String index @ ''.webp''"

definition App_props :: props where
  "App_props =
     \<lparr>firstFrameSrc =
        ''https://static-res-www.imoo.com/US/images/products/x10/pc/animate1-1/animate1-1.webp'',
      totalFrames = DEFAULT_FRAME_COUNT,
      getFramePath = DEFAULT_FRAME_PATH_FORMAT,
      scrollSensitivity = 15,
      pinHeight = ''100vh''\<rparr>"

text \<open>
  Reading a JavaScript array at an integer index: \<open>undefined\<close> (here \<open>None\<close>) outside
  \<open>0 .. length - 1\<close>, never an exception.
\<close>

definition js_index :: "'a list \<Rightarrow> int \<Rightarrow> 'a option" where
  "js_index xs i = (if 0 \<le> i \<and> i < int (length xs) then Some (xs ! nat i) else None)"

section \<open>JavaScript numbers\<close>

text \<open>
  A JavaScript number is an IEEE 754 double, and every arithmetic operation returns the
  double nearest to the exact result, ties going to the even mantissa. Numbers are
  modelled as reals and the rounding is written out where the code multiplies or
  divides. \<open>spacing x\<close> is the distance between neighbouring doubles at \<open>x \<ge> 0\<close>:
  \<open>2 ^ (e - 52)\<close> for \<open>2 ^ e \<le> x < 2 ^ (e + 1)\<close>, found by halving from \<open>e = 52\<close> down to the
  subnormal spacing \<open>2 ^ - 1074\<close>. From \<open>2 ^ 53\<close> on the spacing of doubles exceeds 1; the
  model keeps 1 there, as it takes \<open>totalFrames\<close> for an integer and \<open>totalFrames - 1\<close> for
  exact, which is the code below \<open>2 ^ 53\<close>.
\<close>

definition round_half_even :: "real \<Rightarrow> int" where
  "round_half_even y =
     (let f = \<lfloor>y\<rfloor>; r = y - of_int f
      in if r < 1/2 then f else if 1/2 < r then f + 1 else if even f then f else f + 1)"

fun spacing_from :: "nat \<Rightarrow> real \<Rightarrow> real \<Rightarrow> real" where
  "spacing_from k u x =
     (if k = 0 \<or> 2 ^ 52 * u \<le> x then u else spacing_from (k - 1) (u / 2) x)"

declare spacing_from.simps [simp del]

definition spacing :: "real \<Rightarrow> real" where
  "spacing x = spacing_from 1074 1 x"

definition to_double :: "real \<Rightarrow> real" where
  "to_double x =
     (if x < 0 then - (of_int (round_half_even (- x / spacing (- x))) * spacing (- x))
      else of_int (round_half_even (x / spacing x)) * spacing x)"

section \<open>The renderer: \<open>drawFrame\<close> and \<open>onUpdate\<close>\<close>

text \<open>
  \<open>const frameIndex = Math.min(totalFrames - 1, Math.max(0, Math.floor(index)))\<close>.
  \<open>Math.floor\<close>, \<open>Math.max\<close> and \<open>Math.min\<close> are exact.
\<close>

definition frameIndex :: "int \<Rightarrow> real \<Rightarrow> int" where
  "frameIndex n index = min (n - 1) (max 0 \<lfloor>index\<rfloor>)"

text \<open>The assignments \<open>canvas.width = w\<close>, \<open>canvas.height = h\<close> and the two context calls.\<close>

definition set_canvas_width :: "nat \<Rightarrow> canvas \<Rightarrow> canvas" where
  "set_canvas_width w c = c\<lparr>width := w, calls := calls c @ [SetWidth w]\<rparr>"

definition set_canvas_height :: "nat \<Rightarrow> canvas \<Rightarrow> canvas" where
  "set_canvas_height h c = c\<lparr>height := h, calls := calls c @ [SetHeight h]\<rparr>"

definition clearRect :: "nat \<Rightarrow> nat \<Rightarrow> nat \<Rightarrow> nat \<Rightarrow> canvas \<Rightarrow> canvas" where
  "clearRect x0 y0 w h c = c\<lparr>calls := calls c @ [ClearRect x0 y0 w h]\<rparr>"

definition drawImage :: "image \<Rightarrow> nat \<Rightarrow> nat \<Rightarrow> nat \<Rightarrow> nat \<Rightarrow> canvas \<Rightarrow> canvas" where
  "drawImage img x0 y0 w h c = c\<lparr>calls := calls c @ [DrawImage img x0 y0 w h]\<rparr>"

text \<open>
  \<open>drawFrame(index, canvas, context)\<close>, closed over \<open>imageFrames\<close> and \<open>totalFrames\<close>.
  The image is looked up at the clamped index; when there is none (\<open>if (img)\<close> fails)
  the function does nothing.
\<close>

definition drawFrame :: "int \<Rightarrow> image list \<Rightarrow> real \<Rightarrow> canvas \<Rightarrow> canvas" where
  "drawFrame n frames index c =
     (case js_index frames (frameIndex n index) of
        None \<Rightarrow> c
      | Some img \<Rightarrow>
          (let imgWidth = width img;
               imgHeight = height img;
               c1 = (if width c \<noteq> imgWidth \<or> height c \<noteq> imgHeight
                     then set_canvas_height imgHeight (set_canvas_width imgWidth c)
                     else c)
           in drawImage img 0 0 imgWidth imgHeight (clearRect 0 0 imgWidth imgHeight c1)))"

text \<open>
  The \<open>onUpdate\<close> callback of the scroll trigger:
  \<open>newIndex = self.progress * (totalFrames - 1)\<close>, then \<open>drawFrame(newIndex, ...)\<close>.
  The product is a product of doubles.
\<close>

definition newIndex :: "int \<Rightarrow> real \<Rightarrow> real" where
  "newIndex n progress = to_double (progress * real_of_int (n - 1))"

definition onUpdate :: "int \<Rightarrow> image list \<Rightarrow> real \<Rightarrow> canvas \<Rightarrow> canvas" where
  "onUpdate n frames progress c = drawFrame n frames (newIndex n progress) c"

text \<open>The frame index that \<open>onUpdate\<close> makes \<open>drawFrame\<close> select for a scroll progress.\<close>

definition mapProgressToFrame :: "int \<Rightarrow> real \<Rightarrow> int" where
  "mapProgressToFrame n progress = frameIndex n (newIndex n progress)"

section \<open>The loader: \<open>loadImages\<close>\<close>

text \<open>
  \<open>loadedImages\<close> is a JavaScript array written at chosen positions: an assignment
  beyond the end extends the array and leaves holes (\<open>None\<close>) in between.
  \<open>filter(Boolean)\<close> keeps the elements that are there, in order of position.
\<close>

definition js_set :: "'a option list \<Rightarrow> nat \<Rightarrow> 'a \<Rightarrow> 'a option list" where
  "js_set xs k v = (xs @ replicate (Suc k - length xs) None)[k := Some v]"

definition filter_Boolean :: "'a option list \<Rightarrow> 'a list" where
  "filter_Boolean xs = List.map_filter (\<lambda>x. x) xs"

text \<open>
  Each image created by \<open>loadImages\<close> resolves its promise from \<open>onload\<close> or from
  \<open>onerror\<close>. An event names the source index of the image (1 for \<open>firstImg\<close>, \<open>i\<close> for
  the image of the loop at \<open>i\<close>) and what happened; on success it carries the dimensions
  the image then has. The order of the events is the order of completion.
\<close>

datatype fetch_result = Onload nat nat | Onerror

type_synonym event = "int \<times> fetch_result"

text \<open>
  Console output. The warning of \<open>loadImages\<close> interpolates \<open>successfulLoads.length\<close> and
  \<open>totalFrames\<close> into a fixed text; it is kept as these two numbers.
\<close>

datatype console_msg = ConsoleError string | ConsoleWarn nat int

text \<open>
  The state: the three \<open>useState\<close> cells of the component, the locals of one run of
  \<open>loadImages\<close> (the array, the source indices of the promises pushed to
  \<open>imagePromises\<close>, which of them have resolved) and the console.
\<close>

record state =
  imageFrames :: "image list"
  isLoading :: bool
  isFirstImageLoaded :: bool
  loadedImages :: "image option list"
  imagePromises :: "int list"
  resolved :: "int set"
  console :: "console_msg list"

text \<open>
  The synchronous part of \<open>loadImages\<close> on the freshly mounted component: one promise
  for \<open>firstImg\<close>, then one for each \<open>i\<close> of \<open>for (let i = 2; i <= totalFrames; i++)\<close>.
\<close>

definition loadImages_start :: "props \<Rightarrow> state" where
  "loadImages_start P =
     \<lparr>imageFrames = [], isLoading = True, isFirstImageLoaded = False,
      loadedImages = [], imagePromises = 1 # [2..totalFrames P],
      resolved = {}, console = []\<rparr>"

text \<open>The handlers of \<open>firstImg\<close>.\<close>

definition first_onload :: "props \<Rightarrow> nat \<Rightarrow> nat \<Rightarrow> state \<Rightarrow> state" where
  "first_onload P w h s =
     s\<lparr>loadedImages := js_set (loadedImages s) 0 \<lparr>width = w, height = h, src = firstFrameSrc P\<rparr>,
       isFirstImageLoaded := True,
       resolved := insert 1 (resolved s)\<rparr>"

definition first_onerror :: "props \<Rightarrow> state \<Rightarrow> state" where
  "first_onerror P s =
     s\<lparr>console := console s @ [ConsoleError (''Failed to load initial frame: '' @ firstFrameSrc P)],
       resolved := insert 1 (resolved s)\<rparr>"

text \<open>The handlers of the image created for \<open>i\<close> in the loop; \<open>path = getFramePath(i)\<close>.\<close>

definition frame_onload :: "props \<Rightarrow> int \<Rightarrow> nat \<Rightarrow> nat \<Rightarrow> state \<Rightarrow> state" where
  "frame_onload P i w h s =
     s\<lparr>loadedImages := js_set (loadedImages s) (nat (i - 1))
                          \<lparr>width = w, height = h, src = getFramePath P i\<rparr>,
       resolved := insert i (resolved s)\<rparr>"

definition frame_onerror :: "props \<Rightarrow> int \<Rightarrow> state \<Rightarrow> state" where
  "frame_onerror P i s =
     s\<lparr>console := console s @ [ConsoleError (''Failed to load image: '' @ getFramePath P i)],
       resolved := insert i (resolved s)\<rparr>"

text \<open>
  An event runs the handler of the image it belongs to. No image was created for a
  source index other than 1 and \<open>2 .. totalFrames\<close>, so such an event has no handler.
\<close>

definition issued :: "props \<Rightarrow> int \<Rightarrow> bool" where
  "issued P i = (i = 1 \<or> (2 \<le> i \<and> i \<le> totalFrames P))"

fun handler :: "props \<Rightarrow> event \<Rightarrow> state \<Rightarrow> state" where
  "handler P (i, Onload w h) s =
     (if i = 1 then first_onload P w h s
      else if 2 \<le> i \<and> i \<le> totalFrames P then frame_onload P i w h s
      else s)"
| "handler P (i, Onerror) s =
     (if i = 1 then first_onerror P s
      else if 2 \<le> i \<and> i \<le> totalFrames P then frame_onerror P i s
      else s)"

text \<open>\<open>Promise.all(imagePromises)\<close> resolves when every promise of the list has.\<close>

definition all_resolved :: "state \<Rightarrow> bool" where
  "all_resolved s = list_all (\<lambda>i. i \<in> resolved s) (imagePromises s)"

text \<open>The code after \<open>await Promise.all(imagePromises)\<close>.\<close>

definition after_await :: "props \<Rightarrow> state \<Rightarrow> state" where
  "after_await P s =
     (let successfulLoads = filter_Boolean (loadedImages s);
          s1 = s\<lparr>imageFrames := successfulLoads\<rparr>
      in if int (length successfulLoads) = totalFrames P
         then s1\<lparr>isLoading := False\<rparr>
         else s1\<lparr>console := console s1 @ [ConsoleWarn (length successfulLoads) (totalFrames P)],
                 isLoading := False\<rparr>)"

text \<open>
  One event: its handler runs, and if it resolved the last pending promise the
  continuation of the \<open>await\<close> runs. The continuation runs once: a promise, once
  resolved, stays resolved.
\<close>

definition fire :: "props \<Rightarrow> event \<Rightarrow> state \<Rightarrow> state" where
  "fire P ev s =
     (let s' = handler P ev s
      in if \<not> all_resolved s \<and> all_resolved s' then after_await P s' else s')"

text \<open>A load: the events in their order of completion, from the start of \<open>loadImages\<close>.\<close>

definition run :: "props \<Rightarrow> event list \<Rightarrow> state" where
  "run P evs = fold (fire P) evs (loadImages_start P)"

text \<open>
  The load state in the words of the design: loading while \<open>isLoading\<close>; afterwards ready
  when the frame set has \<open>totalFrames\<close> elements and partially ready otherwise, with the
  number of frames loaded.
\<close>

datatype load_state = Loading | Ready nat | PartiallyReady nat

definition loadState :: "props \<Rightarrow> state \<Rightarrow> load_state" where
  "loadState P s =
     (if isLoading s then Loading
      else if int (length (imageFrames s)) = totalFrames P then Ready (length (imageFrames s))
      else PartiallyReady (length (imageFrames s)))"

section \<open>Binding the renderer\<close>

text \<open>
  The second effect. The calls it makes to the animation library are kept as data, not
  interpreted: \<open>gsap.set(target, vars)\<close>; \<open>gsap.timeline\<close> with the \<open>pin\<close>, the length of
  \<open>end\<close> and the \<open>scrub\<close> of its scroll trigger; and \<open>tl.to(target, vars, position)\<close> with
  the numeric entries of \<open>vars\<close>, its \<open>ease\<close>, its \<open>duration\<close> (\<open>None\<close> when the call gives
  none) and its position. \<open>startTime = START_FRAME / (totalFrames - 1)\<close> is a JavaScript
  division: for \<open>totalFrames = 1\<close> it is \<open>Infinity\<close>, here \<open>None\<close>.
\<close>

datatype target = FrameObject | TextBox

datatype gsap_call =
    GsapSet target "(string \<times> real) list"
  | GsapTimeline bool real real
  | TlTo target "(string \<times> real) list" string "real option" "real option"

record binding =
  surface :: canvas
  gsap :: "gsap_call list"

definition START_FRAME :: real where
  "START_FRAME = 30"

definition startTime :: "int \<Rightarrow> real option" where
  "startTime n =
     (if n - 1 = 0 then None else Some (to_double (START_FRAME / real_of_int (n - 1))))"

definition totalScrollDistance :: "props \<Rightarrow> real" where
  "totalScrollDistance P = to_double (real_of_int (totalFrames P) * scrollSensitivity P)"

text \<open>
  \<open>canvasRef\<close> is \<open>None\<close> while no canvas is rendered; \<open>containerRef\<close> and \<open>textBoxRef\<close>
  say whether the element is there, \<open>context\<close> whether \<open>getContext("2d")\<close> gave one.
  The result is \<open>None\<close> when the effect returns before binding.
\<close>

definition bind_effect ::
  "props \<Rightarrow> state \<Rightarrow> canvas option \<Rightarrow> bool \<Rightarrow> bool \<Rightarrow> bool \<Rightarrow> binding option" where
  "bind_effect P s canvasRef containerRef textBoxRef context =
     (if isLoading s \<or> int (length (imageFrames s)) \<noteq> totalFrames P
         \<or> canvasRef = None \<or> \<not> containerRef \<or> \<not> textBoxRef
      then None
      else if \<not> context then None
      else Some
        \<lparr>surface = drawFrame (totalFrames P) (imageFrames s) 0 (the canvasRef),
         gsap =
           [GsapSet TextBox [(''y'', 100), (''opacity'', 0)],
            GsapTimeline True (totalScrollDistance P) (1/10),
            TlTo FrameObject [(''index'', real_of_int (totalFrames P - 1))] ''none'' (Some 1) (Some 0),
            TlTo TextBox [(''y'', 0), (''opacity'', 1)] ''power2.out'' None
              (startTime (totalFrames P))]\<rparr>)"

section \<open>Notions used to state the properties of a load\<close>

text \<open>Reading position \<open>k\<close> of an array with holes: \<open>None\<close> for a hole and beyond the end.\<close>

definition slot :: "'a option list \<Rightarrow> nat \<Rightarrow> 'a option" where
  "slot xs k = (if k < length xs then xs ! k else None)"

text \<open>The \<open>src\<close> given to the image of source index \<open>i\<close>.\<close>

definition frameSrc :: "props \<Rightarrow> int \<Rightarrow> string" where
  "frameSrc P i = (if i = 1 then firstFrameSrc P else getFramePath P i)"

text \<open>The image an event stores: none for a failure.\<close>

definition loaded :: "props \<Rightarrow> event \<Rightarrow> image option" where
  "loaded P ev = (case snd ev of
       Onload w h \<Rightarrow> Some \<lparr>width = w, height = h, src = frameSrc P (fst ev)\<rparr>
     | Onerror \<Rightarrow> None)"

text \<open>What the events of a load leave for source index \<open>i\<close>: the image of its successful
  fetch, if it was issued and has succeeded.\<close>

definition frame_at :: "props \<Rightarrow> event list \<Rightarrow> int \<Rightarrow> image option" where
  "frame_at P evs i =
     (if issued P i
      then (case map_of evs i of None \<Rightarrow> None | Some r \<Rightarrow> loaded P (i, r))
      else None)"

text \<open>Every promise of \<open>imagePromises\<close> belongs to an image that has had its event.\<close>

definition settled :: "props \<Rightarrow> event list \<Rightarrow> bool" where
  "settled P evs = list_all (\<lambda>i. i \<in> fst ` set evs) (1 # [2..totalFrames P])"

text \<open>Three frames, the first two of the same size, and a canvas of the default size.\<close>

definition example_frames :: "image list" where
  "example_frames =
     [\<lparr>width = 10, height = 20, src = ''a''\<rparr>,
      \<lparr>width = 10, height = 20, src = ''b''\<rparr>,
      \<lparr>width = 30, height = 40, src = ''c''\<rparr>]"

definition example_canvas :: canvas where
  "example_canvas = \<lparr>width = 300, height = 150, calls = []\<rparr>"

text \<open>The text of the \<open>console.error\<close> for source index \<open>i\<close>, and what an event logs.\<close>

definition error_text :: "props \<Rightarrow> int \<Rightarrow> string" where
  "error_text P i =
     (if i = 1 then ''Failed to load initial frame: '' @ firstFrameSrc P
      else ''Failed to load image: '' @ getFramePath P i)"

definition error_of :: "props \<Rightarrow> event \<Rightarrow> console_msg option" where
  "error_of P ev =
     (if issued P (fst ev) \<and> snd ev = Onerror
      then Some (ConsoleError (error_text P (fst ev))) else None)"

text \<open>The warnings of a console, and the number of issued fetches that succeeded.\<close>

definition warnings :: "console_msg list \<Rightarrow> (nat \<times> int) list" where
  "warnings ms =
     List.map_filter (\<lambda>m. case m of ConsoleWarn k n \<Rightarrow> Some (k, n) | ConsoleError t \<Rightarrow> None) ms"

definition successCount :: "props \<Rightarrow> event list \<Rightarrow> nat" where
  "successCount P evs = length (filter (\<lambda>ev. issued P (fst ev) \<and> snd ev \<noteq> Onerror) evs)"

section \<open>Rounding to doubles\<close>

lemma round_half_even_of_int: "round_half_even (of_int k) = k"
  by (simp add: round_half_even_def)

lemma round_half_even_bounds:
  "\<lfloor>y\<rfloor> \<le> round_half_even y" "round_half_even y \<le> \<lfloor>y\<rfloor> + 1"
  by (simp_all add: round_half_even_def Let_def)

lemma round_half_even_mono:
  assumes "x \<le> y"
  shows "round_half_even x \<le> round_half_even y"
proof (cases "\<lfloor>x\<rfloor> = \<lfloor>y\<rfloor>")
  case True
  have "x - of_int \<lfloor>y\<rfloor> \<le> y - of_int \<lfloor>y\<rfloor>"
    using assms by simp
  then show ?thesis
    by (simp add: round_half_even_def Let_def True)
next
  case False
  then have "\<lfloor>x\<rfloor> < \<lfloor>y\<rfloor>"
    using floor_mono [OF assms] by simp
  then have "round_half_even x \<le> \<lfloor>y\<rfloor>"
    using round_half_even_bounds(2) [of x] by simp
  also have "\<dots> \<le> round_half_even y"
    by (rule round_half_even_bounds(1))
  finally show ?thesis .
qed

lemma spacing_from_pow: "\<exists>j\<le>k. spacing_from k u x = u / 2 ^ j"
proof (induction k arbitrary: u)
  case 0
  show ?case by (simp add: spacing_from.simps)
next
  case (Suc k)
  show ?case
  proof (cases "2 ^ 52 * u \<le> x")
    case True
    then have "spacing_from (Suc k) u x = u / 2 ^ 0"
      by (simp add: spacing_from.simps)
    then show ?thesis by blast
  next
    case False
    then have e: "spacing_from (Suc k) u x = spacing_from k (u / 2) x"
      by (simp add: spacing_from.simps [of "Suc k"])
    from Suc.IH [of "u / 2"] obtain j where "j \<le> k" "spacing_from k (u / 2) x = u / 2 / 2 ^ j"
      by blast
    then have "Suc j \<le> Suc k" "spacing_from (Suc k) u x = u / 2 ^ Suc j"
      by (simp_all add: e)
    then show ?thesis by blast
  qed
qed

lemma spacing_from_steps:
  assumes "x \<le> y"
  shows "spacing_from k u x = spacing_from k u y
       \<or> (x < 2 ^ 52 * spacing_from k u y
          \<and> (\<exists>m. spacing_from k u y = 2 ^ m * spacing_from k u x)
          \<and> 2 ^ 52 * spacing_from k u y \<le> y)"
proof (induction k arbitrary: u)
  case 0
  show ?case by (simp add: spacing_from.simps)
next
  case (Suc k)
  show ?case
  proof (cases "2 ^ 52 * u \<le> x")
    case True
    then have "2 ^ 52 * u \<le> y" using assms by simp
    with True show ?thesis by (simp add: spacing_from.simps)
  next
    case False
    then have ex: "spacing_from (Suc k) u x = spacing_from k (u / 2) x"
      by (simp add: spacing_from.simps [of "Suc k"])
    show ?thesis
    proof (cases "2 ^ 52 * u \<le> y")
      case True
      then have ey: "spacing_from (Suc k) u y = u"
        by (simp add: spacing_from.simps)
      from spacing_from_pow [of k "u / 2" x] obtain j where
        "spacing_from k (u / 2) x = u / 2 / 2 ^ j" by blast
      then have "u = 2 ^ Suc j * spacing_from (Suc k) u x"
        by (simp add: ex)
      then have "\<exists>m. spacing_from (Suc k) u y = 2 ^ m * spacing_from (Suc k) u x"
        unfolding ey by blast
      moreover have "x < 2 ^ 52 * spacing_from (Suc k) u y"
        using False by (simp add: ey)
      moreover have "2 ^ 52 * spacing_from (Suc k) u y \<le> y"
        using True by (simp add: ey)
      ultimately show ?thesis by blast
    next
      case False
      then have ey: "spacing_from (Suc k) u y = spacing_from k (u / 2) y"
        by (simp add: spacing_from.simps [of "Suc k"])
      show ?thesis
        unfolding ex ey by (rule Suc.IH)
    qed
  qed
qed

lemma spacing_pow: "\<exists>j. spacing x = 1 / 2 ^ j"
  using spacing_from_pow [of 1074 1 x] unfolding spacing_def by blast

lemma spacing_pos: "0 < spacing x"
  using spacing_pow [of x] by auto

lemma to_double_nonneg:
  "0 \<le> x \<Longrightarrow> to_double x = of_int (round_half_even (x / spacing x)) * spacing x"
  by (simp add: to_double_def)

lemma to_double_of_int:
  assumes "0 \<le> m"
  shows "to_double (of_int m) = of_int m"
proof -
  obtain j where j: "spacing (of_int m) = 1 / 2 ^ j"
    using spacing_pow by blast
  have "of_int m / spacing (of_int m) = (of_int (m * 2 ^ j) :: real)"
    by (simp add: j)
  then have "round_half_even (of_int m / spacing (of_int m)) = m * 2 ^ j"
    by (simp only: round_half_even_of_int)
  then show ?thesis
    using assms by (simp add: to_double_nonneg j)
qed

lemma to_double_zero: "to_double 0 = 0"
  using to_double_of_int [of 0] by simp

lemmas to_double_eval =
  to_double_def spacing_def spacing_from.simps round_half_even_def Let_def

lemma to_double_mono:
  assumes "0 \<le> x" "x \<le> y"
  shows "to_double x \<le> to_double y"
proof -
  let ?a = "spacing x" and ?b = "spacing y"
  have y0: "0 \<le> y" using assms by simp
  have a: "0 < ?a" and b: "0 < ?b" by (rule spacing_pos)+
  consider (same) "?a = ?b"
    | (up) "x < 2 ^ 52 * ?b" "\<exists>m. ?b = 2 ^ m * ?a" "2 ^ 52 * ?b \<le> y"
    using spacing_from_steps [OF assms(2), of 1074 1] unfolding spacing_def by blast
  then show ?thesis
  proof cases
    case same
    have "x / ?a \<le> y / ?a"
      using assms(2) a by (simp add: divide_right_mono)
    then have "round_half_even (x / ?a) \<le> round_half_even (y / ?a)"
      by (rule round_half_even_mono)
    then have "of_int (round_half_even (x / ?a)) * ?a \<le> of_int (round_half_even (y / ?a)) * ?a"
      using a by simp
    then show ?thesis
      by (simp add: to_double_nonneg assms(1) y0 same)
  next
    case up
    then obtain m where m: "?b = 2 ^ m * ?a" by blast
    have "x / ?a \<le> 2 ^ 52 * ?b / ?a"
      using up(1) a by (simp add: divide_right_mono)
    also have "2 ^ 52 * ?b / ?a = (of_int (2 ^ (52 + m)) :: real)"
      using a by (simp add: m power_add)
    finally have "round_half_even (x / ?a) \<le> round_half_even (of_int (2 ^ (52 + m)))"
      by (rule round_half_even_mono)
    then have "round_half_even (x / ?a) \<le> 2 ^ (52 + m)"
      by (simp only: round_half_even_of_int)
    then have "(of_int (round_half_even (x / ?a)) :: real) \<le> of_int (2 ^ (52 + m))"
      by (simp only: of_int_le_iff)
    then have "of_int (round_half_even (x / ?a)) * ?a \<le> of_int (2 ^ (52 + m)) * ?a"
      using a by (simp only: mult_le_cancel_right_pos)
    also have "of_int (2 ^ (52 + m)) * ?a = 2 ^ 52 * ?b"
      by (simp add: m power_add)
    finally have lo: "to_double x \<le> 2 ^ 52 * ?b"
      by (simp add: to_double_nonneg assms(1))
    have "(of_int (2 ^ 52) :: real) \<le> y / ?b"
      using up(3) b by (simp add: pos_le_divide_eq)
    then have "round_half_even (of_int (2 ^ 52)) \<le> round_half_even (y / ?b)"
      by (rule round_half_even_mono)
    then have "2 ^ 52 \<le> round_half_even (y / ?b)"
      by (simp only: round_half_even_of_int)
    then have "(of_int (2 ^ 52) :: real) \<le> of_int (round_half_even (y / ?b))"
      by (simp only: of_int_le_iff)
    then have "of_int (2 ^ 52) * ?b \<le> of_int (round_half_even (y / ?b)) * ?b"
      using b by (simp only: mult_le_cancel_right_pos)
    then have hi: "2 ^ 52 * ?b \<le> to_double y"
      by (simp add: to_double_nonneg y0)
    from lo hi show ?thesis by simp
  qed
qed

lemma floor_to_double:
  assumes "0 \<le> x"
  shows "\<lfloor>x\<rfloor> \<le> \<lfloor>to_double x\<rfloor>" "\<lfloor>to_double x\<rfloor> \<le> \<lfloor>x\<rfloor> + 1"
proof -
  have f0: "0 \<le> \<lfloor>x\<rfloor>" using assms by simp
  have "to_double (of_int \<lfloor>x\<rfloor>) \<le> to_double x"
    using f0 by (intro to_double_mono) simp_all
  then have "of_int \<lfloor>x\<rfloor> \<le> to_double x"
    by (simp only: to_double_of_int [OF f0])
  then show "\<lfloor>x\<rfloor> \<le> \<lfloor>to_double x\<rfloor>"
    by (simp add: le_floor_iff)
  have f1: "0 \<le> \<lfloor>x\<rfloor> + 1" using f0 by simp
  have "x \<le> of_int (\<lfloor>x\<rfloor> + 1)"
    by (metis of_int_floor_le real_of_int_floor_add_one_ge of_int_add of_int_1)
  then have "to_double x \<le> to_double (of_int (\<lfloor>x\<rfloor> + 1))"
    using assms by (intro to_double_mono)
  then have "to_double x \<le> of_int (\<lfloor>x\<rfloor> + 1)"
    by (simp only: to_double_of_int [OF f1])
  then have "\<lfloor>to_double x\<rfloor> \<le> \<lfloor>(of_int (\<lfloor>x\<rfloor> + 1) :: real)\<rfloor>"
    by (rule floor_mono)
  then show "\<lfloor>to_double x\<rfloor> \<le> \<lfloor>x\<rfloor> + 1"
    by (simp only: floor_of_int)
qed

section \<open>Properties of the renderer\<close>

lemma onUpdate_selects:
  "onUpdate n frames progress c =
     (case js_index frames (mapProgressToFrame n progress) of
        None \<Rightarrow> c
      | Some img \<Rightarrow> drawFrame n frames (newIndex n progress) c)"
  by (simp add: onUpdate_def drawFrame_def mapProgressToFrame_def split: option.split)

lemma newIndex_bounds:
  assumes "1 \<le> n" "0 \<le> p" "p \<le> 1"
  shows "0 \<le> newIndex n p" and "newIndex n p \<le> real_of_int (n - 1)"
proof -
  have nn: "0 \<le> n - 1" using assms(1) by simp
  then have nr: "0 \<le> real_of_int (n - 1)" by simp
  have x0: "0 \<le> p * real_of_int (n - 1)"
    using assms(2) nr by (rule mult_nonneg_nonneg)
  have "p * real_of_int (n - 1) \<le> 1 * real_of_int (n - 1)"
    using assms(3) nr by (rule mult_right_mono)
  then have x1: "p * real_of_int (n - 1) \<le> real_of_int (n - 1)" by simp
  have "to_double 0 \<le> to_double (p * real_of_int (n - 1))"
    using x0 by (intro to_double_mono) simp_all
  then show "0 \<le> newIndex n p"
    unfolding newIndex_def by (simp only: to_double_zero)
  have "to_double (p * real_of_int (n - 1)) \<le> to_double (real_of_int (n - 1))"
    using x0 x1 by (rule to_double_mono)
  then show "newIndex n p \<le> real_of_int (n - 1)"
    unfolding newIndex_def by (simp only: to_double_of_int [OF nn])
qed

lemma newIndex_mono:
  assumes "1 \<le> n" "0 \<le> p" "p \<le> q"
  shows "newIndex n p \<le> newIndex n q"
proof -
  have nr: "0 \<le> real_of_int (n - 1)" using assms(1) by simp
  have "0 \<le> p * real_of_int (n - 1)"
    using assms(2) nr by (rule mult_nonneg_nonneg)
  moreover have "p * real_of_int (n - 1) \<le> q * real_of_int (n - 1)"
    using assms(3) nr by (rule mult_right_mono)
  ultimately show ?thesis
    unfolding newIndex_def by (rule to_double_mono)
qed

lemma newIndex_one:
  assumes "1 \<le> n"
  shows "newIndex n 1 = real_of_int (n - 1)"
proof -
  have "0 \<le> n - 1" using assms by simp
  then show ?thesis
    by (simp only: newIndex_def mult_1 to_double_of_int)
qed

lemma frameIndex_mono:
  "a \<le> b \<Longrightarrow> frameIndex n a \<le> frameIndex n b"
  unfolding frameIndex_def
  by (intro min.mono max.mono floor_mono order_refl)

text \<open>
  The double nearest to \<open>1 / 47\<close>, as a progress with 48 frames: it lies in \<open>[0, 1]\<close> and
  is a double; its exact product with 47 is below 1, with floor 0, and rounds to the
  double 1, so the frame selected is 1.
\<close>

theorem mapProgressToFrame_counterexample:
  "(0::real) \<le> 6132561194717271 / 2 ^ 58 \<and> (6132561194717271 / 2 ^ 58 :: real) \<le> 1
   \<and> to_double (6132561194717271 / 2 ^ 58) = 6132561194717271 / 2 ^ 58
   \<and> mapProgressToFrame 48 (6132561194717271 / 2 ^ 58) = 1
   \<and> min (48 - 1) (max 0 \<lfloor>(6132561194717271 / 2 ^ 58) * real_of_int (48 - 1)\<rfloor>) = (0::int)
   \<and> mapProgressToFrame 48 (6132561194717271 / 2 ^ 58)
       \<noteq> min (48 - 1) (max 0 \<lfloor>(6132561194717271 / 2 ^ 58) * real_of_int (48 - 1)\<rfloor>)"
proof -
  have d: "to_double (6132561194717271 / 2 ^ 58) = 6132561194717271 / 2 ^ 58"
    by (simp add: to_double_eval)
  have r: "to_double (6132561194717271 / 2 ^ 58 * real_of_int (48 - 1)) = 1"
    by (simp add: to_double_eval)
  have m: "mapProgressToFrame 48 (6132561194717271 / 2 ^ 58) = 1"
    unfolding mapProgressToFrame_def newIndex_def r by (simp add: frameIndex_def)
  have f: "\<lfloor>(6132561194717271 / 2 ^ 58) * real_of_int (48 - 1)\<rfloor> = (0::int)"
    by (simp add: floor_eq_iff)
  have e: "min (48 - 1) (max 0 \<lfloor>(6132561194717271 / 2 ^ 58) * real_of_int (48 - 1)\<rfloor>) = (0::int)"
    unfolding f by simp
  show ?thesis
    unfolding m e using d by simp
qed

text \<open>
  C1 as the code has it. For every \<open>totalFrames \<ge> 1\<close> and every progress in \<open>[0,1]\<close>, the
  frame that \<open>onUpdate\<close> and \<open>drawFrame\<close> select is
  \<open>min (totalFrames - 1) (max 0 (floor P))\<close>, where \<open>P\<close> is the double product of the
  progress and \<open>totalFrames - 1\<close>. On that range the clamp is not active, so the value is
  \<open>floor P\<close>; it is the floor of the exact product or one more, and it is the floor of
  the exact product whenever that product is itself a double.
\<close>

theorem mapProgressToFrame_double:
  assumes "1 \<le> n" "0 \<le> p" "p \<le> 1"
  shows "mapProgressToFrame n p = min (n - 1) (max 0 \<lfloor>to_double (p * real_of_int (n - 1))\<rfloor>)
       \<and> mapProgressToFrame n p = \<lfloor>to_double (p * real_of_int (n - 1))\<rfloor>
       \<and> \<lfloor>p * real_of_int (n - 1)\<rfloor> \<le> mapProgressToFrame n p
       \<and> mapProgressToFrame n p \<le> \<lfloor>p * real_of_int (n - 1)\<rfloor> + 1
       \<and> (to_double (p * real_of_int (n - 1)) = p * real_of_int (n - 1) \<longrightarrow>
            mapProgressToFrame n p = min (n - 1) (max 0 \<lfloor>p * real_of_int (n - 1)\<rfloor>))
       \<and> onUpdate n frames p c =
           (case js_index frames (min (n - 1) (max 0 \<lfloor>to_double (p * real_of_int (n - 1))\<rfloor>)) of
              None \<Rightarrow> c
            | Some img \<Rightarrow> drawFrame n frames (to_double (p * real_of_int (n - 1))) c)"
proof -
  let ?x = "p * real_of_int (n - 1)"
  have f: "mapProgressToFrame n p = min (n - 1) (max 0 \<lfloor>to_double ?x\<rfloor>)"
    by (simp only: mapProgressToFrame_def frameIndex_def newIndex_def)
  have x0: "0 \<le> ?x"
    using assms by (intro mult_nonneg_nonneg) simp_all
  have lo: "0 \<le> \<lfloor>to_double ?x\<rfloor>"
    using newIndex_bounds(1) [OF assms] by (simp add: newIndex_def)
  have hi: "\<lfloor>to_double ?x\<rfloor> \<le> n - 1"
  proof -
    have "\<lfloor>newIndex n p\<rfloor> \<le> \<lfloor>real_of_int (n - 1)\<rfloor>"
      using newIndex_bounds(2) [OF assms] by (rule floor_mono)
    then show ?thesis
      unfolding newIndex_def floor_of_int .
  qed
  have g: "mapProgressToFrame n p = \<lfloor>to_double ?x\<rfloor>"
    using f lo hi by simp
  have b1: "\<lfloor>?x\<rfloor> \<le> mapProgressToFrame n p"
    unfolding g by (rule floor_to_double(1) [OF x0])
  have b2: "mapProgressToFrame n p \<le> \<lfloor>?x\<rfloor> + 1"
    unfolding g by (rule floor_to_double(2) [OF x0])
  have ex: "to_double ?x = ?x \<longrightarrow> mapProgressToFrame n p = min (n - 1) (max 0 \<lfloor>?x\<rfloor>)"
    using f by simp
  have h: "onUpdate n frames p c =
           (case js_index frames (min (n - 1) (max 0 \<lfloor>to_double ?x\<rfloor>)) of
              None \<Rightarrow> c
            | Some img \<Rightarrow> drawFrame n frames (to_double ?x) c)"
    by (simp only: onUpdate_selects f newIndex_def)
  from f g b1 b2 ex h show ?thesis by blast
qed

theorem mapProgressToFrame_double_witness:
  "mapProgressToFrame 48 (1/2) = min (48 - 1) (max 0 \<lfloor>to_double ((1/2) * real_of_int (48 - 1))\<rfloor>)
   \<and> mapProgressToFrame 48 (1/2) = 23
   \<and> \<lfloor>(1/2) * real_of_int (48 - 1)\<rfloor> \<le> mapProgressToFrame 48 (1/2)
   \<and> mapProgressToFrame 48 (1/2) \<le> \<lfloor>(1/2) * real_of_int (48 - 1)\<rfloor> + 1"
proof -
  have h: "(1::int) \<le> 48" "(0::real) \<le> 1/2" "(1/2::real) \<le> 1" by simp_all
  have r: "to_double ((1/2) * real_of_int (48 - 1)) = 47 / 2"
    by (simp add: to_double_eval)
  note th = mapProgressToFrame_double [OF h]
  have a: "mapProgressToFrame 48 (1/2) = 23"
    using th [THEN conjunct2, THEN conjunct1] unfolding r by simp
  from th a show ?thesis by blast
qed

text \<open>
  C2. For every \<open>totalFrames \<ge> 1\<close> the mapping from progress to frame is monotonic
  non-decreasing on \<open>[0,1]\<close>, and its value lies in \<open>[0, totalFrames - 1]\<close>.
\<close>

theorem mapProgressToFrame_mono_range:
  assumes "1 \<le> n"
  shows "(\<forall>p q. 0 \<le> p \<and> p \<le> q \<and> q \<le> 1 \<longrightarrow> mapProgressToFrame n p \<le> mapProgressToFrame n q)
       \<and> (\<forall>p. 0 \<le> p \<and> p \<le> 1 \<longrightarrow> 0 \<le> mapProgressToFrame n p \<and> mapProgressToFrame n p \<le> n - 1)"
proof (intro conjI allI impI)
  fix p q :: real
  assume "0 \<le> p \<and> p \<le> q \<and> q \<le> 1"
  then have "newIndex n p \<le> newIndex n q"
    using newIndex_mono [OF assms] by blast
  then show "mapProgressToFrame n p \<le> mapProgressToFrame n q"
    unfolding mapProgressToFrame_def by (rule frameIndex_mono)
next
  fix p :: real
  assume "0 \<le> p \<and> p \<le> 1"
  show "0 \<le> mapProgressToFrame n p"
    using assms by (simp add: mapProgressToFrame_def frameIndex_def)
next
  fix p :: real
  assume "0 \<le> p \<and> p \<le> 1"
  show "mapProgressToFrame n p \<le> n - 1"
    by (simp add: mapProgressToFrame_def frameIndex_def)
qed

theorem mapProgressToFrame_mono_range_witness:
  "mapProgressToFrame 48 (1/4) \<le> mapProgressToFrame 48 (3/4)
   \<and> 0 \<le> mapProgressToFrame 48 1 \<and> mapProgressToFrame 48 1 \<le> 48 - 1
   \<and> mapProgressToFrame 48 (1/4) = 11 \<and> mapProgressToFrame 48 (3/4) = 35
   \<and> mapProgressToFrame 48 0 = 0 \<and> mapProgressToFrame 48 1 = 47"
proof -
  have n: "(1::int) \<le> 48" by simp
  have a: "mapProgressToFrame 48 (1/4) \<le> mapProgressToFrame 48 (3/4)"
    using mapProgressToFrame_mono_range [OF n] by simp
  have b: "0 \<le> mapProgressToFrame 48 1 \<and> mapProgressToFrame 48 1 \<le> 48 - 1"
    using mapProgressToFrame_mono_range [OF n] by simp
  have c: "mapProgressToFrame 48 (1/4) = 11" "mapProgressToFrame 48 (3/4) = 35"
    "mapProgressToFrame 48 0 = 0" "mapProgressToFrame 48 1 = 47"
    by (simp_all add: mapProgressToFrame_def frameIndex_def newIndex_def to_double_eval)
  from a b c show ?thesis by simp
qed

section \<open>Painting\<close>

lemma drawFrame_Some:
  assumes "js_index frames (frameIndex n index) = Some img"
  shows "drawFrame n frames index c =
           \<lparr>width = width img, height = height img,
            calls = calls c
              @ (if width c \<noteq> width img \<or> height c \<noteq> height img
                 then [SetWidth (width img), SetHeight (height img)] else [])
              @ [ClearRect 0 0 (width img) (height img),
                 DrawImage img 0 0 (width img) (height img)]\<rparr>"
  using assms
  by (simp add: drawFrame_def Let_def set_canvas_width_def set_canvas_height_def
      clearRect_def drawImage_def)

text \<open>
  C8. When \<open>drawFrame\<close> finds an image at the clamped index, it assigns the canvas's
  \<open>width\<close> and \<open>height\<close> exactly when they differ from the image's, and afterwards the
  canvas has the image's dimensions; then it clears and draws. So painting a second
  frame with the same dimensions as the first makes no assignment to \<open>width\<close> or
  \<open>height\<close> and leaves them as they are, and painting a frame with other dimensions sets
  them to that frame's.
\<close>

theorem drawFrame_resize:
  assumes "js_index frames (frameIndex n i1) = Some img1"
    and "js_index frames (frameIndex n i2) = Some img2"
  shows "width (drawFrame n frames i1 c) = width img1
       \<and> height (drawFrame n frames i1 c) = height img1
       \<and> calls (drawFrame n frames i1 c) =
           calls c
           @ (if width c \<noteq> width img1 \<or> height c \<noteq> height img1
              then [SetWidth (width img1), SetHeight (height img1)] else [])
           @ [ClearRect 0 0 (width img1) (height img1),
              DrawImage img1 0 0 (width img1) (height img1)]
       \<and> calls (drawFrame n frames i2 (drawFrame n frames i1 c)) =
           calls (drawFrame n frames i1 c)
           @ (if width img1 \<noteq> width img2 \<or> height img1 \<noteq> height img2
              then [SetWidth (width img2), SetHeight (height img2)] else [])
           @ [ClearRect 0 0 (width img2) (height img2),
              DrawImage img2 0 0 (width img2) (height img2)]
       \<and> width (drawFrame n frames i2 (drawFrame n frames i1 c)) = width img2
       \<and> height (drawFrame n frames i2 (drawFrame n frames i1 c)) = height img2"
  by (simp add: drawFrame_Some [OF assms(1)] drawFrame_Some [OF assms(2)])

theorem drawFrame_resize_witness:
  "calls (drawFrame 3 example_frames 1 (drawFrame 3 example_frames 0 example_canvas))
     = [SetWidth 10, SetHeight 20,
        ClearRect 0 0 10 20, DrawImage \<lparr>width = 10, height = 20, src = ''a''\<rparr> 0 0 10 20,
        ClearRect 0 0 10 20, DrawImage \<lparr>width = 10, height = 20, src = ''b''\<rparr> 0 0 10 20]
   \<and> width (drawFrame 3 example_frames 1 (drawFrame 3 example_frames 0 example_canvas)) = 10
   \<and> height (drawFrame 3 example_frames 1 (drawFrame 3 example_frames 0 example_canvas)) = 20
   \<and> calls (drawFrame 3 example_frames (5/2) (drawFrame 3 example_frames 1 example_canvas))
     = [SetWidth 10, SetHeight 20,
        ClearRect 0 0 10 20, DrawImage \<lparr>width = 10, height = 20, src = ''b''\<rparr> 0 0 10 20,
        SetWidth 30, SetHeight 40,
        ClearRect 0 0 30 40, DrawImage \<lparr>width = 30, height = 40, src = ''c''\<rparr> 0 0 30 40]
   \<and> width (drawFrame 3 example_frames (5/2) (drawFrame 3 example_frames 1 example_canvas)) = 30
   \<and> height (drawFrame 3 example_frames (5/2) (drawFrame 3 example_frames 1 example_canvas)) = 40"
proof -
  let ?a = "\<lparr>width = 10, height = 20, src = ''a''\<rparr>"
  let ?b = "\<lparr>width = 10, height = 20, src = ''b''\<rparr>"
  let ?c = "\<lparr>width = 30, height = 40, src = ''c''\<rparr>"
  have i0: "js_index example_frames (frameIndex 3 0) = Some ?a"
    by (simp add: js_index_def frameIndex_def example_frames_def)
  have i1: "js_index example_frames (frameIndex 3 1) = Some ?b"
    by (simp add: js_index_def frameIndex_def example_frames_def)
  have i2: "js_index example_frames (frameIndex 3 (5/2)) = Some ?c"
    by (simp add: js_index_def frameIndex_def example_frames_def)
  have same: "calls (drawFrame 3 example_frames 1 (drawFrame 3 example_frames 0 example_canvas))
     = [SetWidth 10, SetHeight 20, ClearRect 0 0 10 20, DrawImage ?a 0 0 10 20,
        ClearRect 0 0 10 20, DrawImage ?b 0 0 10 20]
   \<and> width (drawFrame 3 example_frames 1 (drawFrame 3 example_frames 0 example_canvas)) = 10
   \<and> height (drawFrame 3 example_frames 1 (drawFrame 3 example_frames 0 example_canvas)) = 20"
    using drawFrame_resize [OF i0 i1, of example_canvas]
    by (simp add: example_canvas_def)
  have other: "calls (drawFrame 3 example_frames (5/2) (drawFrame 3 example_frames 1 example_canvas))
     = [SetWidth 10, SetHeight 20, ClearRect 0 0 10 20, DrawImage ?b 0 0 10 20,
        SetWidth 30, SetHeight 40, ClearRect 0 0 30 40, DrawImage ?c 0 0 30 40]
   \<and> width (drawFrame 3 example_frames (5/2) (drawFrame 3 example_frames 1 example_canvas)) = 30
   \<and> height (drawFrame 3 example_frames (5/2) (drawFrame 3 example_frames 1 example_canvas)) = 40"
    using drawFrame_resize [OF i1 i2, of example_canvas]
    by (simp add: example_canvas_def)
  from same other show ?thesis by blast
qed

text \<open>
  C10. If the frame collection has no element at the clamped index, \<open>drawFrame\<close> returns
  the canvas as it was: no assignment to its dimensions, no clear, no draw. The function
  has no failing branch.
\<close>

theorem drawFrame_absent:
  assumes "js_index frames (frameIndex n index) = None"
  shows "drawFrame n frames index c = c"
  using assms by (simp add: drawFrame_def)

theorem drawFrame_absent_witness:
  "js_index (take 2 example_frames) (frameIndex 3 (5/2)) = None
   \<and> drawFrame 3 (take 2 example_frames) (5/2) example_canvas = example_canvas
   \<and> drawFrame 3 [] 0 example_canvas = example_canvas
   \<and> drawFrame 0 example_frames 1 example_canvas = example_canvas"
proof -
  have a: "js_index (take 2 example_frames) (frameIndex 3 (5/2)) = None"
    by (simp add: js_index_def frameIndex_def example_frames_def)
  have b: "js_index ([] :: image list) (frameIndex 3 0) = None"
    by (simp add: js_index_def)
  have c: "js_index example_frames (frameIndex 0 1) = None"
    by (simp add: js_index_def frameIndex_def)
  from a drawFrame_absent [OF a] drawFrame_absent [OF b] drawFrame_absent [OF c]
  show ?thesis by blast
qed

section \<open>The loader: arrays with holes\<close>

lemma length_js_set: "length (js_set xs k v) = max (length xs) (Suc k)"
  by (simp add: js_set_def)

lemma slot_js_set: "slot (js_set xs k v) j = (if j = k then Some v else slot xs j)"
  by (auto simp add: slot_def js_set_def nth_list_update nth_append)

lemma filter_Boolean_append:
  "filter_Boolean (xs @ ys) = filter_Boolean xs @ filter_Boolean ys"
  by (simp add: filter_Boolean_def List.map_filter_def)

lemma map_filter_eqI:
  "(\<And>x. x \<in> set l \<Longrightarrow> f x = g x) \<Longrightarrow> List.map_filter f l = List.map_filter g l"
  by (induction l) (auto split: option.splits)

lemma filter_Boolean_slots:
  assumes "length xs \<le> m"
  shows "filter_Boolean xs = List.map_filter (slot xs) [0..<m]"
proof -
  have "filter_Boolean xs = List.map_filter (\<lambda>x. x) (map ((!) xs) [0..<length xs])"
    by (simp add: filter_Boolean_def map_nth)
  also have "\<dots> = List.map_filter ((!) xs) [0..<length xs]"
    by (simp add: List.map_filter_def filter_map comp_def)
  also have "\<dots> = List.map_filter (slot xs) [0..<length xs]"
    by (rule map_filter_eqI) (simp add: slot_def)
  also have "\<dots> = List.map_filter (slot xs) ([0..<length xs] @ [length xs..<m])"
    by (simp add: List.map_filter_def slot_def)
  also have "[0..<length xs] @ [length xs..<m] = [0..<m]"
    using assms by (metis le0 upt_add_eq_append le_add_diff_inverse)
  finally show ?thesis .
qed

section \<open>The loader: events and settlement\<close>

lemma handler_not_issued: "\<not> issued P (fst ev) \<Longrightarrow> handler P ev s = s"
  by (cases ev; cases "snd ev") (auto simp: issued_def)

lemma resolved_handler:
  "resolved (handler P ev s) = (if issued P (fst ev) then insert (fst ev) (resolved s) else resolved s)"
  by (cases ev; cases "snd ev")
     (auto simp: issued_def first_onload_def first_onerror_def frame_onload_def frame_onerror_def)

lemma imagePromises_handler: "imagePromises (handler P ev s) = imagePromises s"
  by (cases ev; cases "snd ev")
     (auto simp: first_onload_def first_onerror_def frame_onload_def frame_onerror_def)

lemma resolved_fold_handler:
  "resolved (fold (handler P) evs s) = resolved s \<union> {i \<in> fst ` set evs. issued P i}"
  by (induction evs arbitrary: s) (auto simp: resolved_handler)

lemma imagePromises_fold_handler:
  "imagePromises (fold (handler P) evs s) = imagePromises s"
  by (induction evs arbitrary: s) (auto simp: imagePromises_handler)

lemma set_imagePromises_start: "set (imagePromises (loadImages_start P)) = {i. issued P i}"
  by (auto simp: loadImages_start_def issued_def)

lemma all_resolved_fold_start:
  "all_resolved (fold (handler P) evs (loadImages_start P)) \<longleftrightarrow> (\<forall>i. issued P i \<longrightarrow> i \<in> fst ` set evs)"
  unfolding all_resolved_def list_all_iff imagePromises_fold_handler set_imagePromises_start
    resolved_fold_handler
  by (auto simp: loadImages_start_def)

lemma all_resolved_after_await: "all_resolved (after_await P s) = all_resolved s"
  by (simp add: all_resolved_def after_await_def Let_def)

lemma run_fold_handler:
  assumes "distinct (map fst evs)"
  shows "run P evs =
    (if all_resolved (fold (handler P) evs (loadImages_start P))
     then after_await P (fold (handler P) evs (loadImages_start P))
     else fold (handler P) evs (loadImages_start P))"
  using assms
proof (induction evs rule: rev_induct)
  case Nil
  show ?case
    by (simp add: run_def all_resolved_def loadImages_start_def)
next
  case (snoc ev evs)
  let ?H = "fold (handler P) evs (loadImages_start P)"
  have d: "distinct (map fst evs)" and new: "fst ev \<notin> fst ` set evs"
    using snoc.prems by auto
  have r: "run P (evs @ [ev]) = fire P ev (run P evs)"
    by (simp add: run_def)
  show ?case
  proof (cases "all_resolved ?H")
    case True
    then have "\<not> issued P (fst ev)"
      using new by (auto simp: all_resolved_fold_start)
    then have h: "\<And>s. handler P ev s = s"
      by (rule handler_not_issued)
    show ?thesis
      using True snoc.IH [OF d] by (simp add: r fire_def h)
  next
    case False
    then show ?thesis
      using snoc.IH [OF d] by (simp add: r fire_def Let_def)
  qed
qed

lemma slot_handler:
  "slot (loadedImages (handler P ev s)) k =
     (if issued P (fst ev) \<and> fst ev = int k + 1 \<and> snd ev \<noteq> Onerror
      then loaded P ev else slot (loadedImages s) k)"
  by (cases ev; cases "snd ev")
     (auto simp: issued_def first_onload_def first_onerror_def frame_onload_def
        frame_onerror_def slot_js_set loaded_def frameSrc_def)

lemma slot_fold_handler:
  assumes "distinct (map fst evs)"
  shows "slot (loadedImages (fold (handler P) evs s)) k =
     (case frame_at P evs (int k + 1) of
        Some img \<Rightarrow> Some img
      | None \<Rightarrow> slot (loadedImages s) k)"
  using assms
proof (induction evs arbitrary: s)
  case Nil
  show ?case by (simp add: frame_at_def)
next
  case (Cons ev evs)
  obtain i r where ev: "ev = (i, r)" by (cases ev)
  have d: "distinct (map fst evs)" and new: "i \<notin> fst ` set evs"
    using Cons.prems by (auto simp: ev)
  have none: "map_of evs i = None"
    using new by (simp add: map_of_eq_None_iff)
  have step: "slot (loadedImages (fold (handler P) (ev # evs) s)) k =
      (case frame_at P evs (int k + 1) of
         Some img \<Rightarrow> Some img
       | None \<Rightarrow> slot (loadedImages (handler P ev s)) k)"
    using Cons.IH [OF d, of "handler P ev s"] by simp
  show ?case
  proof (cases "i = int k + 1")
    case True
    have a: "frame_at P evs (int k + 1) = None"
      using none True by (simp add: frame_at_def)
    have b: "frame_at P (ev # evs) (int k + 1) = (if issued P i then loaded P ev else None)"
      using True by (simp add: frame_at_def ev)
    have c: "slot (loadedImages (handler P ev s)) k =
        (if issued P i \<and> r \<noteq> Onerror then loaded P ev else slot (loadedImages s) k)"
      using True by (simp add: slot_handler ev)
    have e: "loaded P ev = None \<longleftrightarrow> r = Onerror"
      by (cases r) (simp_all add: loaded_def ev)
    show ?thesis
      unfolding step a b c using e by (auto split: option.split)
  next
    case False
    have a: "frame_at P (ev # evs) (int k + 1) = frame_at P evs (int k + 1)"
      using False by (simp add: frame_at_def ev)
    have c: "slot (loadedImages (handler P ev s)) k = slot (loadedImages s) k"
      using False by (simp add: slot_handler ev)
    show ?thesis
      unfolding step a c ..
  qed
qed

lemma length_loadedImages_handler:
  "length (loadedImages (handler P ev s)) \<le> max (length (loadedImages s)) (max 1 (nat (totalFrames P)))"
  by (cases ev; cases "snd ev")
     (auto simp: first_onload_def first_onerror_def frame_onload_def
        frame_onerror_def length_js_set)

lemma length_loadedImages_fold:
  "length (loadedImages (fold (handler P) evs s)) \<le> max (length (loadedImages s)) (max 1 (nat (totalFrames P)))"
proof (induction evs arbitrary: s)
  case Nil
  show ?case by simp
next
  case (Cons ev evs)
  have "length (loadedImages (fold (handler P) evs (handler P ev s)))
        \<le> max (length (loadedImages (handler P ev s))) (max 1 (nat (totalFrames P)))"
    by (rule Cons.IH)
  also have "\<dots> \<le> max (length (loadedImages s)) (max 1 (nat (totalFrames P)))"
    using length_loadedImages_handler [of P ev s] by simp
  finally show ?case by simp
qed

lemma promise_indices:
  "map (\<lambda>k. int k + 1) [0..<max 1 (nat n)] = 1 # [2..n]"
proof (rule nth_equalityI)
  show "length (map (\<lambda>k. int k + 1) [0..<max 1 (nat n)]) = length (1 # [2..n])"
    by simp
next
  fix k
  assume "k < length (map (\<lambda>k. int k + 1) [0..<max 1 (nat n)])"
  then have k: "k < max 1 (nat n)" by simp
  show "map (\<lambda>k. int k + 1) [0..<max 1 (nat n)] ! k = (1 # [2..n]) ! k"
  proof (cases k)
    case 0
    then show ?thesis using k by simp
  next
    case (Suc j)
    then have "2 + int j \<le> n" using k by simp
    then show ?thesis using k Suc by (simp add: nth_upto)
  qed
qed

lemma map_filter_map: "List.map_filter f (map g l) = List.map_filter (\<lambda>x. f (g x)) l"
  by (induction l) (auto split: option.splits)

lemma filter_Boolean_fold_start:
  assumes "distinct (map fst evs)"
  shows "filter_Boolean (loadedImages (fold (handler P) evs (loadImages_start P)))
         = List.map_filter (frame_at P evs) (1 # [2..totalFrames P])"
proof -
  let ?xs = "loadedImages (fold (handler P) evs (loadImages_start P))"
  let ?m = "max 1 (nat (totalFrames P))"
  have len: "length ?xs \<le> ?m"
    using length_loadedImages_fold [of P evs "loadImages_start P"]
    by (simp add: loadImages_start_def)
  have sl: "slot ?xs k = frame_at P evs (int k + 1)" for k
  proof -
    have "slot (loadedImages (loadImages_start P)) k = None"
      by (simp add: slot_def loadImages_start_def)
    then show ?thesis
      by (simp only: slot_fold_handler [OF assms] split: option.split) simp
  qed
  have "filter_Boolean ?xs = List.map_filter (slot ?xs) [0..<?m]"
    using len by (rule filter_Boolean_slots)
  also have "\<dots> = List.map_filter (\<lambda>k. frame_at P evs (int k + 1)) [0..<?m]"
    by (rule map_filter_eqI) (rule sl)
  also have "\<dots> = List.map_filter (frame_at P evs) (map (\<lambda>k. int k + 1) [0..<?m])"
    by (simp add: map_filter_map)
  also have "\<dots> = List.map_filter (frame_at P evs) (1 # [2..totalFrames P])"
    by (simp only: promise_indices)
  finally show ?thesis .
qed

lemma settled_iff: "settled P evs \<longleftrightarrow> (\<forall>i. issued P i \<longrightarrow> i \<in> fst ` set evs)"
  by (auto simp: settled_def list_all_iff issued_def)

lemma imageFrames_fold_handler:
  "imageFrames (fold (handler P) evs s) = imageFrames s"
  by (induction evs arbitrary: s; (simp; fail)?)
     (case_tac a; case_tac b; simp add: first_onload_def first_onerror_def frame_onload_def frame_onerror_def)

lemma isLoading_fold_handler:
  "isLoading (fold (handler P) evs s) = isLoading s"
  by (induction evs arbitrary: s; (simp; fail)?)
     (case_tac a; case_tac b; simp add: first_onload_def first_onerror_def frame_onload_def frame_onerror_def)

lemma start_fields:
  "imageFrames (loadImages_start P) = []" "isLoading (loadImages_start P)"
  "\<not> isFirstImageLoaded (loadImages_start P)" "console (loadImages_start P) = []"
  by (simp_all add: loadImages_start_def)

lemma all_resolved_settled:
  "all_resolved (fold (handler P) evs (loadImages_start P)) = settled P evs"
  by (simp only: all_resolved_fold_start settled_iff)

lemma run_settled:
  assumes "distinct (map fst evs)" "settled P evs"
  shows "run P evs = after_await P (fold (handler P) evs (loadImages_start P))"
  using assms(2) by (simp add: run_fold_handler [OF assms(1)] all_resolved_settled)

lemma run_pending:
  assumes "distinct (map fst evs)" "\<not> settled P evs"
  shows "run P evs = fold (handler P) evs (loadImages_start P)"
  using assms(2) by (simp add: run_fold_handler [OF assms(1)] all_resolved_settled)

lemma imageFrames_run:
  assumes "distinct (map fst evs)"
  shows "imageFrames (run P evs) =
     (if settled P evs then List.map_filter (frame_at P evs) (1 # [2..totalFrames P]) else [])"
proof (cases "settled P evs")
  case True
  have "imageFrames (after_await P (fold (handler P) evs (loadImages_start P)))
        = List.map_filter (frame_at P evs) (1 # [2..totalFrames P])"
    unfolding filter_Boolean_fold_start [OF assms, symmetric]
    by (simp add: after_await_def Let_def)
  then show ?thesis
    using True by (simp only: run_settled [OF assms True] if_True)
next
  case False
  then show ?thesis
    by (simp add: run_pending [OF assms False] imageFrames_fold_handler start_fields)
qed

lemma isLoading_run:
  assumes "distinct (map fst evs)"
  shows "isLoading (run P evs) \<longleftrightarrow> \<not> settled P evs"
proof (cases "settled P evs")
  case True
  then show ?thesis
    by (simp add: run_settled [OF assms True] after_await_def Let_def)
next
  case False
  then show ?thesis
    by (simp add: run_pending [OF assms False] isLoading_fold_handler start_fields)
qed

section \<open>The frame set of a load\<close>

lemma frame_at_event:
  assumes "distinct (map fst evs)" "(i, r) \<in> set evs" "issued P i"
  shows "frame_at P evs i = loaded P (i, r)"
  using assms by (simp add: frame_at_def)

lemma frame_at_perm:
  assumes "distinct (map fst evs)" "distinct (map fst evs')" "set evs' = set evs"
  shows "frame_at P evs' = frame_at P evs"
proof -
  have "map_of evs' = map_of evs"
    using assms by (simp add: map_of_inject_set)
  then show ?thesis
    by (simp add: frame_at_def fun_eq_iff)
qed

lemma settled_perm: "set evs' = set evs \<Longrightarrow> settled P evs' = settled P evs"
  by (simp add: settled_def)

lemma imageFrames_perm:
  assumes "distinct (map fst evs)" "distinct (map fst evs')" "set evs' = set evs"
  shows "imageFrames (run P evs') = imageFrames (run P evs)"
  by (simp add: imageFrames_run assms frame_at_perm [OF assms] settled_perm [OF assms(3)])

lemma map_filter_total:
  "(\<And>x. x \<in> set l \<Longrightarrow> f x = Some (g x)) \<Longrightarrow> List.map_filter f l = map g l"
  by (induction l) auto

lemma promises_nth:
  assumes "k < max 1 (nat n)"
  shows "(1 # [2..n]) ! k = int k + 1"
proof -
  have "(1 # [2..n]) ! k = map (\<lambda>k. int k + 1) [0..<max 1 (nat n)] ! k"
    by (simp only: promise_indices)
  also have "\<dots> = int k + 1"
    using assms by simp
  finally show ?thesis .
qed

lemma set_promises: "set (1 # [2..n]) = {i. i = 1 \<or> (2 \<le> i \<and> i \<le> n)}"
  by auto

text \<open>
  C4. When every one of the \<open>totalFrames\<close> fetches succeeds, whatever the order of
  completion, the frame set has \<open>totalFrames\<close> elements and its position \<open>i - 1\<close> holds
  the image loaded for source index \<open>i\<close>: position 0 the image of \<open>firstFrameSrc\<close>,
  position \<open>i - 1\<close> the one of \<open>getFramePath(i)\<close>. Any other order of the same events
  gives the same frame set.
\<close>

theorem frameset_order:
  assumes n: "1 \<le> totalFrames P"
    and d: "distinct (map fst evs)"
    and cover: "fst ` set evs = {1..totalFrames P}"
    and ok: "\<forall>ev\<in>set evs. snd ev \<noteq> Onerror"
  shows "length (imageFrames (run P evs)) = nat (totalFrames P)
       \<and> (\<forall>ev\<in>set evs. js_index (imageFrames (run P evs)) (fst ev - 1) = loaded P ev
                          \<and> loaded P ev \<noteq> None)
       \<and> map src (imageFrames (run P evs))
           = firstFrameSrc P # map (getFramePath P) [2..totalFrames P]
       \<and> (\<forall>evs'. distinct (map fst evs') \<and> set evs' = set evs
             \<longrightarrow> imageFrames (run P evs') = imageFrames (run P evs))"
proof -
  let ?n = "totalFrames P"
  let ?l = "1 # [2..?n]"
  let ?g = "\<lambda>i. the (frame_at P evs i)"
  have iss: "issued P i \<longleftrightarrow> i \<in> {1..?n}" for i
    using n by (auto simp: issued_def)
  have st: "settled P evs"
    by (simp add: settled_iff iss cover)
  have ld: "loaded P ev \<noteq> None" if "ev \<in> set evs" for ev
    using ok that by (cases "snd ev") (auto simp: loaded_def)
  have fa: "frame_at P evs (fst ev) = loaded P ev" if "ev \<in> set evs" for ev
  proof -
    have "fst ev \<in> {1..?n}" using that cover by blast
    then have "issued P (fst ev)" by (simp add: iss)
    with frame_at_event [OF d, of "fst ev" "snd ev" P] that show ?thesis by simp
  qed
  have tot: "frame_at P evs i = Some (?g i)" if "i \<in> set ?l" for i
  proof -
    have "issued P i" using that by (auto simp: issued_def)
    then have "i \<in> fst ` set evs" by (simp add: iss cover)
    then obtain ev where ev: "ev \<in> set evs" "fst ev = i" by auto
    with fa [of ev] ld [of ev] show ?thesis by auto
  qed
  have frames: "imageFrames (run P evs) = map ?g ?l"
    using st map_filter_total [of ?l "frame_at P evs" ?g, OF tot]
    by (simp only: imageFrames_run [OF d] if_True)
  have len: "length (imageFrames (run P evs)) = nat ?n"
    using n by (simp add: frames)
  have pos: "js_index (imageFrames (run P evs)) (fst ev - 1) = loaded P ev \<and> loaded P ev \<noteq> None"
    if "ev \<in> set evs" for ev
  proof -
    have r: "fst ev \<in> {1..?n}" using that cover by blast
    then have k: "nat (fst ev - 1) < max 1 (nat ?n)" by auto
    have "js_index (imageFrames (run P evs)) (fst ev - 1)
          = Some (imageFrames (run P evs) ! nat (fst ev - 1))"
      using r by (simp add: js_index_def len)
    also have "imageFrames (run P evs) ! nat (fst ev - 1) = ?g (?l ! nat (fst ev - 1))"
      unfolding frames using k by (intro nth_map) simp
    also have "?l ! nat (fst ev - 1) = fst ev"
      using promises_nth [OF k] r by simp
    finally show ?thesis
      using fa [OF that] ld [OF that] by auto
  qed
  have s1: "src (?g i) = frameSrc P i" if "i \<in> set ?l" for i
  proof -
    have "issued P i" using that by (auto simp: issued_def)
    then have "i \<in> fst ` set evs" by (simp add: iss cover)
    then obtain ev where ev: "ev \<in> set evs" "fst ev = i" by auto
    with fa [of ev] ld [of ev] show ?thesis
      by (cases "snd ev") (auto simp: loaded_def)
  qed
  have "map src (imageFrames (run P evs)) = map (frameSrc P) ?l"
    unfolding frames map_map comp_def by (rule map_cong [OF refl]) (rule s1)
  also have "\<dots> = firstFrameSrc P # map (getFramePath P) [2..?n]"
    by (simp add: frameSrc_def)
  finally have srcs: "map src (imageFrames (run P evs))
      = firstFrameSrc P # map (getFramePath P) [2..?n]" .
  have perm: "\<forall>evs'. distinct (map fst evs') \<and> set evs' = set evs
             \<longrightarrow> imageFrames (run P evs') = imageFrames (run P evs)"
    using imageFrames_perm [OF d] by blast
  from len pos srcs perm show ?thesis by blast
qed

theorem frameset_order_witness:
  "length (imageFrames (run (App_props\<lparr>totalFrames := 3\<rparr>)
       [(3, Onload 5 6), (1, Onload 1 2), (2, Onload 3 4)])) = 3
   \<and> js_index (imageFrames (run (App_props\<lparr>totalFrames := 3\<rparr>)
       [(3, Onload 5 6), (1, Onload 1 2), (2, Onload 3 4)])) (3 - 1)
       = Some \<lparr>width = 5, height = 6, src = DEFAULT_FRAME_PATH_FORMAT 3\<rparr>
   \<and> js_index (imageFrames (run (App_props\<lparr>totalFrames := 3\<rparr>)
       [(3, Onload 5 6), (1, Onload 1 2), (2, Onload 3 4)])) (1 - 1)
       = Some \<lparr>width = 1, height = 2, src = firstFrameSrc App_props\<rparr>
   \<and> imageFrames (run (App_props\<lparr>totalFrames := 3\<rparr>)
       [(1, Onload 1 2), (2, Onload 3 4), (3, Onload 5 6)])
     = imageFrames (run (App_props\<lparr>totalFrames := 3\<rparr>)
       [(3, Onload 5 6), (1, Onload 1 2), (2, Onload 3 4)])"
proof -
  let ?P = "App_props\<lparr>totalFrames := 3\<rparr>"
  let ?evs = "[(3, Onload 5 6), (1, Onload 1 2), (2, Onload 3 4)] :: event list"
  let ?evs' = "[(1, Onload 1 2), (2, Onload 3 4), (3, Onload 5 6)] :: event list"
  have n: "1 \<le> totalFrames ?P" by simp
  have d: "distinct (map fst ?evs)" by simp
  have c: "fst ` set ?evs = {1..totalFrames ?P}" by auto
  have ok: "\<forall>ev\<in>set ?evs. snd ev \<noteq> Onerror" by simp
  note th = frameset_order [OF n d c ok]
  have a1: "length (imageFrames (run ?P ?evs)) = 3"
    using th [THEN conjunct1] by simp
  have a2: "js_index (imageFrames (run ?P ?evs)) (3 - 1)
       = Some \<lparr>width = 5, height = 6, src = DEFAULT_FRAME_PATH_FORMAT 3\<rparr>"
    using th [THEN conjunct2, THEN conjunct1, THEN bspec, of "(3, Onload 5 6)"]
    by (simp add: loaded_def frameSrc_def App_props_def)
  have a3: "js_index (imageFrames (run ?P ?evs)) (1 - 1)
       = Some \<lparr>width = 1, height = 2, src = firstFrameSrc App_props\<rparr>"
    using th [THEN conjunct2, THEN conjunct1, THEN bspec, of "(1, Onload 1 2)"]
    by (simp add: loaded_def frameSrc_def)
  have d': "distinct (map fst ?evs') \<and> set ?evs' = set ?evs" by auto
  have a4: "imageFrames (run ?P ?evs') = imageFrames (run ?P ?evs)"
    using th [THEN conjunct2, THEN conjunct2, THEN conjunct2, THEN spec, of ?evs'] d'
    by (rule mp)
  from a1 a2 a3 a4 show ?thesis by (intro conjI)
qed

section \<open>The console and the count of successes\<close>

lemma console_handler:
  "console (handler P ev s) = console s @ (case error_of P ev of None \<Rightarrow> [] | Some m \<Rightarrow> [m])"
  by (cases ev; cases "snd ev")
     (auto simp: issued_def error_of_def error_text_def first_onload_def first_onerror_def
        frame_onload_def frame_onerror_def)

lemma console_fold_handler:
  "console (fold (handler P) evs s) = console s @ List.map_filter (error_of P) evs"
proof (induction evs arbitrary: s)
  case Nil
  show ?case by simp
next
  case (Cons ev evs)
  have "console (fold (handler P) (ev # evs) s)
        = console (handler P ev s) @ List.map_filter (error_of P) evs"
    using Cons.IH [of "handler P ev s"] by simp
  then show ?case
    by (simp add: console_handler split: option.split)
qed

lemma loadedImages_after_await: "loadedImages (after_await P s) = loadedImages s"
  by (simp add: after_await_def Let_def)

lemma loadedImages_run:
  assumes "distinct (map fst evs)"
  shows "loadedImages (run P evs) = loadedImages (fold (handler P) evs (loadImages_start P))"
  by (simp add: run_fold_handler [OF assms] loadedImages_after_await)

lemma slot_run:
  assumes "distinct (map fst evs)"
  shows "slot (loadedImages (run P evs)) k = frame_at P evs (int k + 1)"
proof -
  have "slot (loadedImages (loadImages_start P)) k = None"
    by (simp add: slot_def loadImages_start_def)
  then show ?thesis
    unfolding loadedImages_run [OF assms]
    by (simp only: slot_fold_handler [OF assms] split: option.split) simp
qed

lemma warnings_append: "warnings (xs @ ys) = warnings xs @ warnings ys"
  by (simp add: warnings_def List.map_filter_def)

lemma warnings_errors: "warnings (List.map_filter (error_of P) evs) = []"
  by (induction evs) (auto simp: warnings_def error_of_def split: option.splits)

lemma console_run:
  assumes "distinct (map fst evs)"
  shows "console (run P evs) =
     List.map_filter (error_of P) evs
     @ (if settled P evs \<and> int (length (imageFrames (run P evs))) \<noteq> totalFrames P
        then [ConsoleWarn (length (imageFrames (run P evs))) (totalFrames P)] else [])"
proof (cases "settled P evs")
  case True
  show ?thesis
    using True
    by (simp add: run_settled [OF assms True] after_await_def Let_def console_fold_handler
        start_fields)
next
  case False
  then show ?thesis
    by (simp add: run_pending [OF assms False] console_fold_handler start_fields)
qed

lemma length_map_filter_upd:
  assumes "distinct l" "f i = None"
  shows "length (List.map_filter (f(i := v)) l)
         = length (List.map_filter f l) + (if i \<in> set l \<and> v \<noteq> None then 1 else 0)"
  using assms by (induction l) (auto split: option.splits)

lemma frame_at_Cons:
  "frame_at P ((i, r) # evs) =
     (frame_at P evs)(i := if issued P i then loaded P (i, r) else None)"
  by (auto simp: frame_at_def fun_eq_iff)

lemma frame_at_fresh: "i \<notin> fst ` set evs \<Longrightarrow> frame_at P evs i = None"
  using map_of_eq_None_iff [of evs i] by (simp add: frame_at_def)

lemma loaded_None: "loaded P ev = None \<longleftrightarrow> snd ev = Onerror"
  by (cases "snd ev") (simp_all add: loaded_def)

lemma length_frames_successCount:
  assumes "distinct (map fst evs)"
  shows "length (List.map_filter (frame_at P evs) (1 # [2..totalFrames P])) = successCount P evs"
  using assms
proof (induction evs)
  case Nil
  have "List.map_filter (frame_at P []) l = []" for l
    by (induction l) (simp_all add: frame_at_def)
  then show ?case by (simp only: successCount_def filter.simps list.size)
next
  case (Cons ev evs)
  obtain i r where ev: "ev = (i, r)" by (cases ev)
  have d: "distinct (map fst evs)" and new: "i \<notin> fst ` set evs"
    using Cons.prems by (auto simp: ev)
  have dl: "distinct (1 # [2..totalFrames P])" by simp
  have mem: "i \<in> set (1 # [2..totalFrames P]) \<longleftrightarrow> issued P i"
    by (auto simp: issued_def)
  have "length (List.map_filter (frame_at P (ev # evs)) (1 # [2..totalFrames P]))
        = length (List.map_filter (frame_at P evs) (1 # [2..totalFrames P]))
          + (if issued P i \<and> r \<noteq> Onerror then 1 else 0)"
    unfolding ev frame_at_Cons
      length_map_filter_upd [of "1 # [2..totalFrames P]" "frame_at P evs" i, OF dl frame_at_fresh [OF new]]
      mem
    by (cases r) (simp_all add: loaded_def del: map_filter_simps)
  also have "\<dots> = successCount P (ev # evs)"
    unfolding Cons.IH [OF d] by (simp add: successCount_def ev)
  finally show ?case .
qed

lemma length_imageFrames_run:
  assumes "distinct (map fst evs)" "settled P evs"
  shows "length (imageFrames (run P evs)) = successCount P evs"
  using assms(2)
  by (simp only: imageFrames_run [OF assms(1)] if_True length_frames_successCount [OF assms(1)])

lemma successCount_le:
  assumes "distinct (map fst evs)" "1 \<le> totalFrames P"
  shows "int (successCount P evs) \<le> totalFrames P"
proof -
  have "length (List.map_filter (frame_at P evs) (1 # [2..totalFrames P]))
        \<le> length (1 # [2..totalFrames P])"
    by (simp only: List.map_filter_def length_map length_filter_le)
  then show ?thesis
    using assms(2) unfolding length_frames_successCount [OF assms(1)] by simp
qed

section \<open>Failures, settlement and the first frame\<close>

lemma error_logged:
  assumes "(i, Onerror) \<in> set evs" "issued P i"
  shows "ConsoleError (error_text P i) \<in> set (List.map_filter (error_of P) evs)"
proof -
  have "error_of P (i, Onerror) = Some (ConsoleError (error_text P i))"
    using assms(2) by (simp add: error_of_def)
  then show ?thesis
    using assms(1) by (force simp: List.map_filter_def)
qed

text \<open>
  C5. In a load whose images each have at most one event: a failed fetch appends its
  \<open>console.error\<close> and leaves its position of \<open>loadedImages\<close> empty; every successful
  fetch has its image stored at its position whatever else failed; the number of errors
  logged is the number of failed fetches; the load stays in its loading state, with an
  empty frame set, exactly as long as some issued fetch has not resolved, and once all
  have it holds the successful images in order of source index. The handlers have no
  failing branch.
\<close>

theorem failures_contained:
  assumes d: "distinct (map fst evs)"
  shows "(\<forall>i. issued P i \<and> (i, Onerror) \<in> set evs \<longrightarrow>
            ConsoleError (error_text P i) \<in> set (console (run P evs))
            \<and> slot (loadedImages (run P evs)) (nat (i - 1)) = None)
       \<and> (\<forall>i w h. issued P i \<and> (i, Onload w h) \<in> set evs \<longrightarrow>
            slot (loadedImages (run P evs)) (nat (i - 1))
              = Some \<lparr>width = w, height = h, src = frameSrc P i\<rparr>)
       \<and> length (filter (\<lambda>m. \<exists>t. m = ConsoleError t) (console (run P evs)))
           = length (filter (\<lambda>ev. issued P (fst ev) \<and> snd ev = Onerror) evs)
       \<and> (isLoading (run P evs) \<longleftrightarrow> \<not> settled P evs)
       \<and> (\<not> settled P evs \<longrightarrow> imageFrames (run P evs) = [])
       \<and> (settled P evs \<longrightarrow>
            imageFrames (run P evs) = List.map_filter (frame_at P evs) (1 # [2..totalFrames P]))"
proof (intro conjI allI impI)
  fix i
  assume a: "issued P i \<and> (i, Onerror) \<in> set evs"
  then have pos: "int (nat (i - 1)) + 1 = i"
    by (auto simp: issued_def)
  show "ConsoleError (error_text P i) \<in> set (console (run P evs))"
    using a error_logged [of i evs P] by (simp add: console_run [OF d])
  have "slot (loadedImages (run P evs)) (nat (i - 1)) = frame_at P evs i"
    by (simp only: slot_run [OF d] pos)
  then show "slot (loadedImages (run P evs)) (nat (i - 1)) = None"
    using a frame_at_event [OF d, of i Onerror P] by (simp add: loaded_def)
next
  fix i w h
  assume a: "issued P i \<and> (i, Onload w h) \<in> set evs"
  then have pos: "int (nat (i - 1)) + 1 = i"
    by (auto simp: issued_def)
  have "slot (loadedImages (run P evs)) (nat (i - 1)) = frame_at P evs i"
    by (simp only: slot_run [OF d] pos)
  then show "slot (loadedImages (run P evs)) (nat (i - 1))
          = Some \<lparr>width = w, height = h, src = frameSrc P i\<rparr>"
    using a frame_at_event [OF d, of i "Onload w h" P] by (simp add: loaded_def)
next
  have e: "length (filter (\<lambda>m. \<exists>t. m = ConsoleError t) (List.map_filter (error_of P) evs))
           = length (filter (\<lambda>ev. issued P (fst ev) \<and> snd ev = Onerror) evs)"
    by (induction evs) (auto simp: error_of_def)
  show "length (filter (\<lambda>m. \<exists>t. m = ConsoleError t) (console (run P evs)))
        = length (filter (\<lambda>ev. issued P (fst ev) \<and> snd ev = Onerror) evs)"
    by (simp add: console_run [OF d] e)
next
  show "isLoading (run P evs) \<longleftrightarrow> \<not> settled P evs"
    by (rule isLoading_run [OF d])
next
  assume "\<not> settled P evs"
  then show "imageFrames (run P evs) = []"
    by (simp add: imageFrames_run [OF d])
next
  assume "settled P evs"
  then show "imageFrames (run P evs) = List.map_filter (frame_at P evs) (1 # [2..totalFrames P])"
    by (simp only: imageFrames_run [OF d] if_True)
qed

text \<open>
  C6. Once every issued fetch has resolved, \<open>isLoading\<close> is false and the frame set has
  as many elements as fetches succeeded. If that number is below \<open>totalFrames\<close> the load
  is partially ready and the console holds exactly one warning, with the number loaded
  and \<open>totalFrames\<close>; if it equals \<open>totalFrames\<close> the load is ready and there is no
  warning. For \<open>totalFrames \<ge> 1\<close> there is no third case.
\<close>

theorem settlement_state:
  assumes d: "distinct (map fst evs)" and st: "settled P evs"
  shows "\<not> isLoading (run P evs)
       \<and> length (imageFrames (run P evs)) = successCount P evs
       \<and> (int (successCount P evs) < totalFrames P \<longrightarrow>
            loadState P (run P evs) = PartiallyReady (successCount P evs)
            \<and> warnings (console (run P evs)) = [(successCount P evs, totalFrames P)])
       \<and> (int (successCount P evs) = totalFrames P \<longrightarrow>
            loadState P (run P evs) = Ready (successCount P evs)
            \<and> warnings (console (run P evs)) = [])
       \<and> (1 \<le> totalFrames P \<longrightarrow> int (successCount P evs) \<le> totalFrames P)"
proof -
  have l: "\<not> isLoading (run P evs)"
    using st by (simp add: isLoading_run [OF d])
  have n: "length (imageFrames (run P evs)) = successCount P evs"
    by (rule length_imageFrames_run [OF d st])
  have w: "warnings (console (run P evs)) =
      (if int (successCount P evs) \<noteq> totalFrames P
       then [(successCount P evs, totalFrames P)] else [])"
    using st by (simp add: console_run [OF d] warnings_append warnings_errors n)
       (simp add: warnings_def)
  have s: "loadState P (run P evs) =
      (if int (successCount P evs) = totalFrames P then Ready (successCount P evs)
       else PartiallyReady (successCount P evs))"
    using l by (simp add: loadState_def n)
  from l n w s successCount_le [OF d] show ?thesis by simp
qed

lemma isFirstImageLoaded_after_await:
  "isFirstImageLoaded (after_await P s) = isFirstImageLoaded s"
  by (simp add: after_await_def Let_def)

lemma isFirstImageLoaded_handler:
  "isFirstImageLoaded (handler P ev s)
     \<longleftrightarrow> isFirstImageLoaded s \<or> (fst ev = 1 \<and> snd ev \<noteq> Onerror)"
  by (cases ev; cases "snd ev")
     (auto simp: first_onload_def first_onerror_def frame_onload_def frame_onerror_def)

lemma isFirstImageLoaded_fire:
  "isFirstImageLoaded (fire P ev s)
     \<longleftrightarrow> isFirstImageLoaded s \<or> (fst ev = 1 \<and> snd ev \<noteq> Onerror)"
  by (simp add: fire_def Let_def isFirstImageLoaded_after_await isFirstImageLoaded_handler
      del: handler.simps)

lemma isFirstImageLoaded_fold:
  "isFirstImageLoaded (fold (fire P) evs s)
     \<longleftrightarrow> isFirstImageLoaded s \<or> (\<exists>ev\<in>set evs. fst ev = 1 \<and> snd ev \<noteq> Onerror)"
  by (induction evs arbitrary: s) (auto simp: isFirstImageLoaded_fire)

text \<open>
  C7 as the code has it. \<open>onload\<close> of the first image sets \<open>isFirstImageLoaded\<close> at once,
  whatever else is pending; its \<open>onerror\<close> and the handlers of the other images leave
  the flag as it is. So after any events the flag is set exactly when the first image
  has loaded.
\<close>

theorem first_frame_flag:
  "isFirstImageLoaded (fire P (1, Onload w h) s)
   \<and> (isFirstImageLoaded (fire P (1, Onerror) s) \<longleftrightarrow> isFirstImageLoaded s)
   \<and> (i \<noteq> 1 \<longrightarrow> (isFirstImageLoaded (fire P (i, r) s) \<longleftrightarrow> isFirstImageLoaded s))
   \<and> (isFirstImageLoaded (run P evs) \<longleftrightarrow> (\<exists>w h. (1, Onload w h) \<in> set evs))"
proof -
  have "(\<exists>ev\<in>set evs. fst ev = 1 \<and> snd ev \<noteq> Onerror) \<longleftrightarrow> (\<exists>w h. (1, Onload w h) \<in> set evs)"
  proof
    assume "\<exists>ev\<in>set evs. fst ev = 1 \<and> snd ev \<noteq> Onerror"
    then obtain ev where ev: "ev \<in> set evs" "fst ev = 1" "snd ev \<noteq> Onerror" by blast
    then obtain w h where "snd ev = Onload w h" by (cases "snd ev") auto
    with ev have "ev = (1, Onload w h)" by (simp add: prod_eq_iff)
    with ev have "(1, Onload w h) \<in> set evs" by simp
    then show "\<exists>w h. (1, Onload w h) \<in> set evs" by blast
  next
    assume "\<exists>w h. (1, Onload w h) \<in> set evs"
    then show "\<exists>ev\<in>set evs. fst ev = 1 \<and> snd ev \<noteq> Onerror" by force
  qed
  then have "isFirstImageLoaded (run P evs) \<longleftrightarrow> (\<exists>w h. (1, Onload w h) \<in> set evs)"
    by (simp add: run_def isFirstImageLoaded_fold start_fields)
  then show ?thesis
    by (simp add: isFirstImageLoaded_fire)
qed

section \<open>Loads evaluated\<close>

lemmas run_simps = run_def fire_def loadImages_start_def all_resolved_def after_await_def
  first_onload_def first_onerror_def frame_onload_def frame_onerror_def js_set_def
  filter_Boolean_def Let_def

lemma run_one_failure:
  "run (App_props\<lparr>totalFrames := 3\<rparr>) [(3, Onload 5 6), (1, Onerror), (2, Onload 3 4)] =
     \<lparr>imageFrames =
        [\<lparr>width = 3, height = 4, src = DEFAULT_FRAME_PATH_FORMAT 2\<rparr>,
         \<lparr>width = 5, height = 6, src = DEFAULT_FRAME_PATH_FORMAT 3\<rparr>],
      isLoading = False, isFirstImageLoaded = False,
      loadedImages =
        [None,
         Some \<lparr>width = 3, height = 4, src = DEFAULT_FRAME_PATH_FORMAT 2\<rparr>,
         Some \<lparr>width = 5, height = 6, src = DEFAULT_FRAME_PATH_FORMAT 3\<rparr>],
      imagePromises = [1, 2, 3], resolved = {2, 1, 3},
      console =
        [ConsoleError (''Failed to load initial frame: '' @ firstFrameSrc App_props),
         ConsoleWarn 2 3]\<rparr>"
  by (simp add: run_simps App_props_def eval_nat_numeral)

lemma run_pending_failure:
  "run (App_props\<lparr>totalFrames := 3\<rparr>) [(3, Onload 5 6), (1, Onerror)] =
     \<lparr>imageFrames = [], isLoading = True, isFirstImageLoaded = False,
      loadedImages = [None, None, Some \<lparr>width = 5, height = 6, src = DEFAULT_FRAME_PATH_FORMAT 3\<rparr>],
      imagePromises = [1, 2, 3], resolved = {1, 3},
      console = [ConsoleError (''Failed to load initial frame: '' @ firstFrameSrc App_props)]\<rparr>"
  by (simp add: run_simps App_props_def eval_nat_numeral)

lemma DEFAULT_FRAME_PATH_FORMAT_48:
  "DEFAULT_FRAME_PATH_FORMAT 48 =
     ''https://static-res-www.imoo.com/US/images/products/x10/pc/animate1-1/animate1-48.webp''"
  by (simp add: DEFAULT_FRAME_PATH_FORMAT_def String_def string_of_nat.simps)

section \<open>The load at concrete schedules\<close>

theorem failures_contained_witness:
  "ConsoleError (error_text (App_props\<lparr>totalFrames := 3\<rparr>) 1)
       \<in> set (console (run (App_props\<lparr>totalFrames := 3\<rparr>)
                [(3, Onload 5 6), (1, Onerror), (2, Onload 3 4)]))
   \<and> slot (loadedImages (run (App_props\<lparr>totalFrames := 3\<rparr>)
                [(3, Onload 5 6), (1, Onerror), (2, Onload 3 4)])) (nat (1 - 1)) = None
   \<and> slot (loadedImages (run (App_props\<lparr>totalFrames := 3\<rparr>)
                [(3, Onload 5 6), (1, Onerror), (2, Onload 3 4)])) (nat (2 - 1))
       = Some \<lparr>width = 3, height = 4, src = DEFAULT_FRAME_PATH_FORMAT 2\<rparr>
   \<and> \<not> isLoading (run (App_props\<lparr>totalFrames := 3\<rparr>)
                [(3, Onload 5 6), (1, Onerror), (2, Onload 3 4)])
   \<and> isLoading (run (App_props\<lparr>totalFrames := 3\<rparr>) [(3, Onload 5 6), (1, Onerror)])
   \<and> imageFrames (run (App_props\<lparr>totalFrames := 3\<rparr>) [(3, Onload 5 6), (1, Onerror)]) = []"
proof -
  let ?P = "App_props\<lparr>totalFrames := 3\<rparr>"
  let ?evs = "[(3, Onload 5 6), (1, Onerror), (2, Onload 3 4)] :: event list"
  let ?pre = "[(3, Onload 5 6), (1, Onerror)] :: event list"
  have d: "distinct (map fst ?evs)" by simp
  have dp: "distinct (map fst ?pre)" by simp
  have st: "settled ?P ?evs" by (simp add: settled_def)
  have nst: "\<not> settled ?P ?pre" by (simp add: settled_def)
  have f: "issued ?P 1 \<and> (1, Onerror) \<in> set ?evs" by (simp add: issued_def)
  have g: "issued ?P 2 \<and> (2, Onload 3 4) \<in> set ?evs" by (simp add: issued_def)
  note th = failures_contained [OF d, of ?P]
  note tp = failures_contained [OF dp, of ?P]
  have a1: "ConsoleError (error_text ?P 1) \<in> set (console (run ?P ?evs))
            \<and> slot (loadedImages (run ?P ?evs)) (nat (1 - 1)) = None"
    using th [THEN conjunct1, THEN spec, of 1] f by (rule mp)
  have a2: "slot (loadedImages (run ?P ?evs)) (nat (2 - 1))
            = Some \<lparr>width = 3, height = 4, src = frameSrc ?P 2\<rparr>"
    using th [THEN conjunct2, THEN conjunct1, THEN spec, THEN spec, THEN spec, of 2 3 4] g
    by (rule mp)
  have a3: "\<not> isLoading (run ?P ?evs)"
    using th [THEN conjunct2, THEN conjunct2, THEN conjunct2, THEN conjunct1] st by simp
  have a4: "isLoading (run ?P ?pre)"
    using tp [THEN conjunct2, THEN conjunct2, THEN conjunct2, THEN conjunct1] nst by simp
  have a5: "imageFrames (run ?P ?pre) = []"
    using tp [THEN conjunct2, THEN conjunct2, THEN conjunct2, THEN conjunct2, THEN conjunct1] nst
    by (rule mp)
  have s2: "frameSrc ?P 2 = DEFAULT_FRAME_PATH_FORMAT 2"
    by (simp add: frameSrc_def App_props_def)
  from a1 a2 a3 a4 a5 show ?thesis
    unfolding s2 by (intro conjI) (erule conjunct1, erule conjunct2)
qed

theorem settlement_state_witness:
  "loadState (App_props\<lparr>totalFrames := 3\<rparr>)
      (run (App_props\<lparr>totalFrames := 3\<rparr>) [(3, Onload 5 6), (1, Onerror), (2, Onload 3 4)])
     = PartiallyReady 2
   \<and> warnings (console (run (App_props\<lparr>totalFrames := 3\<rparr>)
        [(3, Onload 5 6), (1, Onerror), (2, Onload 3 4)])) = [(2, 3)]
   \<and> \<not> isLoading (run (App_props\<lparr>totalFrames := 3\<rparr>)
        [(3, Onload 5 6), (1, Onerror), (2, Onload 3 4)])
   \<and> loadState (App_props\<lparr>totalFrames := 3\<rparr>)
      (run (App_props\<lparr>totalFrames := 3\<rparr>) [(3, Onload 5 6), (1, Onload 1 2), (2, Onload 3 4)])
     = Ready 3
   \<and> warnings (console (run (App_props\<lparr>totalFrames := 3\<rparr>)
        [(3, Onload 5 6), (1, Onload 1 2), (2, Onload 3 4)])) = []"
proof -
  let ?P = "App_props\<lparr>totalFrames := 3\<rparr>"
  let ?evs = "[(3, Onload 5 6), (1, Onerror), (2, Onload 3 4)] :: event list"
  let ?all = "[(3, Onload 5 6), (1, Onload 1 2), (2, Onload 3 4)] :: event list"
  have d: "distinct (map fst ?evs)" by simp
  have da: "distinct (map fst ?all)" by simp
  have st: "settled ?P ?evs" by (simp add: settled_def)
  have sta: "settled ?P ?all" by (simp add: settled_def)
  have c: "successCount ?P ?evs = 2" by (simp add: successCount_def issued_def)
  have ca: "successCount ?P ?all = 3" by (simp add: successCount_def issued_def)
  have lt: "int (successCount ?P ?evs) < totalFrames ?P" unfolding c by simp
  have eq: "int (successCount ?P ?all) = totalFrames ?P" unfolding ca by simp
  note th = settlement_state [OF d st]
  note ta = settlement_state [OF da sta]
  have a1: "\<not> isLoading (run ?P ?evs)"
    by (rule th [THEN conjunct1])
  have a2: "loadState ?P (run ?P ?evs) = PartiallyReady (successCount ?P ?evs)
            \<and> warnings (console (run ?P ?evs)) = [(successCount ?P ?evs, totalFrames ?P)]"
    using th [THEN conjunct2, THEN conjunct2, THEN conjunct1] lt by (rule mp)
  have a3: "loadState ?P (run ?P ?all) = Ready (successCount ?P ?all)
            \<and> warnings (console (run ?P ?all)) = []"
    using ta [THEN conjunct2, THEN conjunct2, THEN conjunct2, THEN conjunct1] eq by (rule mp)
  from a1 a2 a3 show ?thesis
    unfolding c ca by simp
qed

theorem first_frame_flag_witness:
  "isFirstImageLoaded (fire App_props (1, Onload 1 2) (loadImages_start App_props))
   \<and> \<not> isFirstImageLoaded (fire App_props (1, Onerror) (loadImages_start App_props))
   \<and> \<not> isFirstImageLoaded (fire App_props (2, Onload 3 4) (loadImages_start App_props))
   \<and> isFirstImageLoaded (run App_props [(3, Onerror), (1, Onload 1 2)])
   \<and> \<not> isFirstImageLoaded (run App_props [(3, Onload 5 6), (1, Onerror)])"
proof -
  note th = first_frame_flag [of App_props 1 2 "loadImages_start App_props" 2 "Onload 3 4"]
  have ne: "(2::int) \<noteq> 1" by simp
  have a1: "isFirstImageLoaded (fire App_props (1, Onload 1 2) (loadImages_start App_props))"
    by (rule th [THEN conjunct1])
  have a2: "\<not> isFirstImageLoaded (fire App_props (1, Onerror) (loadImages_start App_props))"
    using th [of "[]", THEN conjunct2, THEN conjunct1] by (simp add: start_fields)
  have a3: "\<not> isFirstImageLoaded (fire App_props (2, Onload 3 4) (loadImages_start App_props))"
    using th [of "[]", THEN conjunct2, THEN conjunct2, THEN conjunct1, THEN mp, OF ne]
    by (simp add: start_fields)
  have a4: "isFirstImageLoaded (run App_props [(3, Onerror), (1, Onload 1 2)])"
    using th [of "[(3, Onerror), (1, Onload 1 2)]", THEN conjunct2, THEN conjunct2, THEN conjunct2]
    by simp
  have a5: "\<not> isFirstImageLoaded (run App_props [(3, Onload 5 6), (1, Onerror)])"
    using th [of "[(3, Onload 5 6), (1, Onerror)]", THEN conjunct2, THEN conjunct2, THEN conjunct2]
    by simp
  from a1 a2 a3 a4 a5 show ?thesis by (intro conjI)
qed

text \<open>
  The first image fails: its promise is resolved and the flag is still unset.
\<close>

theorem first_frame_flag_counterexample:
  "1 \<in> resolved (run (App_props\<lparr>totalFrames := 3\<rparr>) [(1, Onerror)])
   \<and> \<not> isFirstImageLoaded (run (App_props\<lparr>totalFrames := 3\<rparr>) [(1, Onerror)])"
  by (simp add: run_simps)

section \<open>Binding after a load\<close>

lemma bind_effect_guard:
  "isLoading s \<or> int (length (imageFrames s)) \<noteq> totalFrames P
     \<Longrightarrow> bind_effect P s canvasRef containerRef textBoxRef context = None"
  by (auto simp: bind_effect_def)

lemma bind_effect_ready:
  assumes "\<not> isLoading s" "int (length (imageFrames s)) = totalFrames P"
  shows "bind_effect P s (Some c) True True True =
     Some \<lparr>surface = drawFrame (totalFrames P) (imageFrames s) 0 c,
           gsap =
             [GsapSet TextBox [(''y'', 100), (''opacity'', 0)],
              GsapTimeline True (totalScrollDistance P) (1/10),
              TlTo FrameObject [(''index'', real_of_int (totalFrames P - 1))] ''none''
                (Some 1) (Some 0),
              TlTo TextBox [(''y'', 0), (''opacity'', 1)] ''power2.out'' None
                (startTime (totalFrames P))]\<rparr>"
  using assms by (simp add: bind_effect_def)

lemma startTime_default: "startTime DEFAULT_FRAME_COUNT = Some (2874638060023721 / 2 ^ 52)"
  by (simp add: startTime_def START_FRAME_def DEFAULT_FRAME_COUNT_def to_double_eval)

lemma totalScrollDistance_default: "totalScrollDistance App_props = 720"
  by (simp add: totalScrollDistance_def App_props_def DEFAULT_FRAME_COUNT_def to_double_eval)

text \<open>
  The second fetch of two fails: the load settles with one frame of two, and the effect
  returns before binding although the canvas, the container, the text box and the
  context are all there.
\<close>

theorem partial_load_counterexample:
  "settled (App_props\<lparr>totalFrames := 2\<rparr>) [(1, Onload 10 20), (2, Onerror)]
   \<and> \<not> isLoading (run (App_props\<lparr>totalFrames := 2\<rparr>) [(1, Onload 10 20), (2, Onerror)])
   \<and> length (imageFrames (run (App_props\<lparr>totalFrames := 2\<rparr>)
        [(1, Onload 10 20), (2, Onerror)])) = 1
   \<and> bind_effect (App_props\<lparr>totalFrames := 2\<rparr>)
        (run (App_props\<lparr>totalFrames := 2\<rparr>) [(1, Onload 10 20), (2, Onerror)])
        (Some example_canvas) True True True = None"
  by (simp add: settled_def run_simps bind_effect_def)

text \<open>
  C3 as the code has it. When the load settles with fewer successes than \<open>totalFrames\<close>,
  the effect returns before binding, whatever the refs and the context: nothing is drawn
  and no timeline is made. The frame mapping does clamp against \<open>totalFrames\<close> and not
  against the length of the frame set: at progress 1 it gives \<open>totalFrames - 1\<close>, beyond
  the last position of the shorter set, where \<open>onUpdate\<close> would find no image and leave
  the canvas as it is.
\<close>

theorem partial_load_not_bound:
  assumes d: "distinct (map fst evs)" and st: "settled P evs"
    and lt: "int (successCount P evs) < totalFrames P"
  shows "bind_effect P (run P evs) canvasRef containerRef textBoxRef context = None
       \<and> mapProgressToFrame (totalFrames P) 1 = totalFrames P - 1
       \<and> int (length (imageFrames (run P evs))) \<le> mapProgressToFrame (totalFrames P) 1
       \<and> js_index (imageFrames (run P evs)) (mapProgressToFrame (totalFrames P) 1) = None
       \<and> onUpdate (totalFrames P) (imageFrames (run P evs)) 1 c = c"
proof -
  have len: "length (imageFrames (run P evs)) = successCount P evs"
    by (rule length_imageFrames_run [OF d st])
  have b: "bind_effect P (run P evs) canvasRef containerRef textBoxRef context = None"
    using lt by (intro bind_effect_guard) (simp add: len)
  have n: "1 \<le> totalFrames P"
    using lt by simp
  have m: "mapProgressToFrame (totalFrames P) 1 = totalFrames P - 1"
    using n by (simp add: mapProgressToFrame_def frameIndex_def newIndex_one)
  have le: "int (length (imageFrames (run P evs))) \<le> mapProgressToFrame (totalFrames P) 1"
    using lt by (simp add: m len)
  have j: "js_index (imageFrames (run P evs)) (mapProgressToFrame (totalFrames P) 1) = None"
    using le by (simp add: js_index_def)
  have u: "onUpdate (totalFrames P) (imageFrames (run P evs)) 1 c = c"
    using j by (simp add: onUpdate_selects)
  from b m le j u show ?thesis by (intro conjI)
qed

theorem partial_load_not_bound_witness:
  "bind_effect (App_props\<lparr>totalFrames := 3\<rparr>)
      (run (App_props\<lparr>totalFrames := 3\<rparr>) [(3, Onload 5 6), (1, Onerror), (2, Onload 3 4)])
      (Some example_canvas) True True True = None
   \<and> mapProgressToFrame 3 1 = 2
   \<and> js_index (imageFrames (run (App_props\<lparr>totalFrames := 3\<rparr>)
        [(3, Onload 5 6), (1, Onerror), (2, Onload 3 4)])) 2 = None
   \<and> onUpdate 3 (imageFrames (run (App_props\<lparr>totalFrames := 3\<rparr>)
        [(3, Onload 5 6), (1, Onerror), (2, Onload 3 4)])) 1 example_canvas = example_canvas"
proof -
  let ?P = "App_props\<lparr>totalFrames := 3\<rparr>"
  let ?evs = "[(3, Onload 5 6), (1, Onerror), (2, Onload 3 4)] :: event list"
  have d: "distinct (map fst ?evs)" by simp
  have st: "settled ?P ?evs" by (simp add: settled_def)
  have c: "successCount ?P ?evs = 2" by (simp add: successCount_def issued_def)
  have lt: "int (successCount ?P ?evs) < totalFrames ?P" unfolding c by simp
  note th = partial_load_not_bound [OF d st lt, of "Some example_canvas" True True True example_canvas]
  have t: "totalFrames ?P = 3" by simp
  have m: "mapProgressToFrame 3 1 = 2"
    using th [THEN conjunct2, THEN conjunct1] by simp
  have a1: "bind_effect ?P (run ?P ?evs) (Some example_canvas) True True True = None"
    by (rule th [THEN conjunct1])
  have a2: "js_index (imageFrames (run ?P ?evs)) (mapProgressToFrame 3 1) = None"
    using th [THEN conjunct2, THEN conjunct2, THEN conjunct2, THEN conjunct1]
    unfolding t .
  have a3: "onUpdate 3 (imageFrames (run ?P ?evs)) 1 example_canvas = example_canvas"
    using th [THEN conjunct2, THEN conjunct2, THEN conjunct2, THEN conjunct2]
    unfolding t .
  from a1 m a2 [unfolded m] a3 show ?thesis by (intro conjI)
qed

end
